theory Spec2Isabelle
  imports Main "HOL-Library.Log_Nat"
begin

section \<open>The ISO 8601 time codec of viresclient (time_util.py)\<close>

text \<open>
  The module parses ISO 8601 dates, date-times and durations with three regular
  expressions and encodes durations back to text. The embedding keeps the structure of
  the source: the three patterns are values of a regular-expression datatype run by a
  backtracking matcher with capture groups, the values of Python are a tagged union, and
  every \<^verbatim>\<open>raise\<close> is the left injection of a sum.
\<close>

subsection \<open>Python values and errors\<close>

datatype error = ValueError | TypeError | OverflowError | IndexError

text \<open>
  \<^verbatim>\<open>datetime.timedelta\<close>: the three normalised integer fields. A value built by
  Python satisfies \<open>valid_timedelta\<close>.
\<close>

record timedelta =
  days :: int
  seconds :: int
  microseconds :: int

definition valid_timedelta :: "timedelta \<Rightarrow> bool" where
  "valid_timedelta v \<longleftrightarrow>
     - 999999999 \<le> days v \<and> days v \<le> 999999999 \<and>
     0 \<le> seconds v \<and> seconds v < 86400 \<and>
     0 \<le> microseconds v \<and> microseconds v < 1000000"

text \<open>
  \<^verbatim>\<open>class TimeZone(tzinfo)\<close>: a fixed offset and a label; \<^verbatim>\<open>utcoffset\<close> and
  \<^verbatim>\<open>dst\<close> both return the offset.
\<close>

record TimeZone =
  offset :: timedelta
  label :: string

definition utcoffset :: "TimeZone \<Rightarrow> timedelta" where
  "utcoffset tz = offset tz"

definition dst :: "TimeZone \<Rightarrow> timedelta" where
  "dst tz = offset tz"

text \<open>\<^verbatim>\<open>datetime.date\<close> and \<^verbatim>\<open>datetime.datetime\<close>.\<close>

record date =
  year :: int
  month :: int
  day :: int

record datetime = date +
  hour :: int
  minute :: int
  second :: int
  microsecond :: int
  tzinfo :: "TimeZone option"

text \<open>
  The argument of the four entry points. \<^verbatim>\<open>datetime\<close> inherits from \<^verbatim>\<open>date\<close> in
  Python; the two constructors keep the instances of the subclass apart from the
  date-only values, which is what the \<^verbatim>\<open>isinstance\<close> tests of the source decide.
\<close>

datatype pyvalue =
    Str string
  | Datetime datetime
  | Date date
  | Timedelta timedelta

subsection \<open>Regular expressions with capture groups\<close>

text \<open>
  The fragment of Python's \<^verbatim>\<open>re\<close> the three patterns use. Strings are lists of 8-bit
  characters; among these \<^verbatim>\<open>\d\<close> matches the ASCII digits only. Quantifiers are greedy.
  \<open>Rep cs m n\<close> is a character class repeated \<open>m\<close> to \<open>n\<close> times (\<open>None\<close>: no upper
  bound), \<open>Grp i r\<close> is the capturing group number \<open>i\<close>, \<open>Eos\<close> is \<^verbatim>\<open>$\<close>, which holds
  at the end of the string and just before a final newline.
\<close>

datatype re =
    Chr char
  | Cls "char list"
  | Rep "char list" nat "nat option"
  | Seq re re
  | Alt re re
  | Opt re
  | Grp nat re
  | Eos

type_synonym caps = "nat \<Rightarrow> string option"

definition digits :: "char list" where
  "digits = ''0123456789''"

text \<open>
  The greedy repetition of a class: the longest admissible count first, then each
  shorter one down to the minimum.
\<close>

definition rep_counts :: "char list \<Rightarrow> nat \<Rightarrow> nat option \<Rightarrow> string \<Rightarrow> nat list" where
  "rep_counts cs m n s =
     (let avail = length (takeWhile (\<lambda>x. x \<in> set cs) s);
          top = (case n of None \<Rightarrow> avail | Some k \<Rightarrow> min k avail)
      in rev [m ..< Suc top])"

text \<open>
  The backtracking matcher: all the ways the expression matches a prefix of the input,
  in the order in which Python tries them, each with the rest of the input and the
  groups captured so far.
\<close>

fun rmatch :: "re \<Rightarrow> string \<Rightarrow> caps \<Rightarrow> (string \<times> caps) list" where
  "rmatch (Chr a) s c =
     (case s of [] \<Rightarrow> [] | x # xs \<Rightarrow> if x = a then [(xs, c)] else [])"
| "rmatch (Cls cs) s c =
     (case s of [] \<Rightarrow> [] | x # xs \<Rightarrow> if x \<in> set cs then [(xs, c)] else [])"
| "rmatch (Rep cs m n) s c = map (\<lambda>k. (drop k s, c)) (rep_counts cs m n s)"
| "rmatch (Seq a b) s c =
     concat (map (\<lambda>(s', c'). rmatch b s' c') (rmatch a s c))"
| "rmatch (Alt a b) s c = rmatch a s c @ rmatch b s c"
| "rmatch (Opt a) s c = rmatch a s c @ [(s, c)]"
| "rmatch (Grp i a) s c =
     map (\<lambda>(s', c'). (s', c'(i \<mapsto> take (length s - length s') s))) (rmatch a s c)"
| "rmatch Eos s c = (if s = [] \<or> s = [CHR 0x0A] then [(s, c)] else [])"

text \<open>The numbers of the groups of an expression.\<close>

fun groups :: "re \<Rightarrow> nat set" where
  "groups (Seq a b) = groups a \<union> groups b"
| "groups (Alt a b) = groups a \<union> groups b"
| "groups (Opt a) = groups a"
| "groups (Grp i a) = insert i (groups a)"
| "groups _ = {}"

text \<open>
  \<^verbatim>\<open>pattern.match(value)\<close>: the match is anchored at index 0 (where the leading
  \<^verbatim>\<open>^\<close> of the patterns holds) and the first way to match wins.
\<close>

definition re_match :: "re \<Rightarrow> string \<Rightarrow> caps option" where
  "re_match r s = (case rmatch r s (\<lambda>_. None) of [] \<Rightarrow> None | (_, c) # _ \<Rightarrow> Some c)"

text \<open>Sequences of more than two parts.\<close>

fun seqs :: "re list \<Rightarrow> re" where
  "seqs [] = Rep [] 0 (Some 0)"
| "seqs [r] = r"
| "seqs (r # rs) = Seq r (seqs rs)"

definition d2 :: re where
  "d2 = Rep digits 2 (Some 2)"

definition d4 :: re where
  "d4 = Rep digits 4 (Some 4)"

text \<open>
  \<^verbatim>\<open>RE_ISO_8601_DATETIME_LONG\<close>:
  \<^verbatim>\<open>^(\d{4,4})-(\d{2,2})-(\d{2,2})(?:T(\d{2,2}):(\d{2,2})(?::(\d{2,2})(?:[.,](\d{0,6})\d*)?)?(Z|([+-]\d{2,2})(?::(\d{2,2}))?)?)?$\<close>
\<close>

definition RE_ISO_8601_DATETIME_LONG :: re where
  "RE_ISO_8601_DATETIME_LONG =
     seqs [Grp 1 d4, Chr CHR ''-'', Grp 2 d2, Chr CHR ''-'', Grp 3 d2,
       Opt (seqs [Chr CHR ''T'', Grp 4 d2, Chr CHR '':'', Grp 5 d2,
         Opt (seqs [Chr CHR '':'', Grp 6 d2,
           Opt (seqs [Cls ''.,'', Grp 7 (Rep digits 0 (Some 6)), Rep digits 0 None])]),
         Opt (Grp 8 (Alt (Chr CHR ''Z'')
           (Seq (Grp 9 (Seq (Cls ''+-'') d2)) (Opt (Seq (Chr CHR '':'') (Grp 10 d2))))))]),
       Eos]"

text \<open>
  \<^verbatim>\<open>RE_ISO_8601_DATETIME_SHORT\<close>:
  \<^verbatim>\<open>^(\d{4,4})(\d{2,2})(\d{2,2})(?:T(\d{2,2})(\d{2,2})(?:(\d{2,2})(?:[.,](\d{0,6})\d*)?)?(Z|([+-]\d{2,2})(\d{2,2})?)?)?$\<close>
\<close>

definition RE_ISO_8601_DATETIME_SHORT :: re where
  "RE_ISO_8601_DATETIME_SHORT =
     seqs [Grp 1 d4, Grp 2 d2, Grp 3 d2,
       Opt (seqs [Chr CHR ''T'', Grp 4 d2, Grp 5 d2,
         Opt (seqs [Grp 6 d2,
           Opt (seqs [Cls ''.,'', Grp 7 (Rep digits 0 (Some 6)), Rep digits 0 None])]),
         Opt (Grp 8 (Alt (Chr CHR ''Z'')
           (Seq (Grp 9 (Seq (Cls ''+-'') d2)) (Opt (Grp 10 d2)))))]),
       Eos]"

text \<open>
  One designator component of the duration pattern,
  \<^verbatim>\<open>(?:(?P<name>\d+(\.\d+)?)X)?\<close>: the named group \<open>i\<close>, the unnamed group \<open>i + 1\<close> of
  the fraction, and the designator \<open>x\<close>.
\<close>

definition num :: "nat \<Rightarrow> re" where
  "num i = Grp i (Seq (Rep digits 1 None)
     (Opt (Grp (Suc i) (Seq (Chr CHR ''.'') (Rep digits 1 None)))))"

definition comp :: "nat \<Rightarrow> char \<Rightarrow> re" where
  "comp i x = Opt (Seq (num i) (Chr x))"

text \<open>The named groups of the duration pattern, by their group numbers.\<close>

definition g_sign :: nat where "g_sign = 1"
definition g_years :: nat where "g_years = 2"
definition g_months :: nat where "g_months = 4"
definition g_days :: nat where "g_days = 6"
definition g_hours :: nat where "g_hours = 8"
definition g_minutes :: nat where "g_minutes = 10"
definition g_seconds :: nat where "g_seconds = 12"

text \<open>
  \<^verbatim>\<open>RE_ISO_8601_DURATION\<close>:
  \<^verbatim>\<open>^(?P<sign>[+-])?P(?:(?P<years>\d+(\.\d+)?)Y)?(?:(?P<months>\d+(\.\d+)?)M)?(?:(?P<days>\d+(\.\d+)?)D)?T?(?:(?P<hours>\d+(\.\d+)?)H)?(?:(?P<minutes>\d+(\.\d+)?)M)?(?:(?P<seconds>\d+(\.\d+)?)S)?$\<close>
\<close>

definition RE_ISO_8601_DURATION :: re where
  "RE_ISO_8601_DURATION =
     seqs [Opt (Grp g_sign (Cls ''+-'')), Chr CHR ''P'',
       comp g_years CHR ''Y'', comp g_months CHR ''M'', comp g_days CHR ''D'',
       Opt (Chr CHR ''T''),
       comp g_hours CHR ''H'', comp g_minutes CHR ''M'', comp g_seconds CHR ''S'',
       Eos]"

subsection \<open>Python's integers and floats read from text\<close>

definition digit_val :: "char \<Rightarrow> nat" where
  "digit_val c = of_char c - 48"

definition nat_of_digits :: "string \<Rightarrow> nat" where
  "nat_of_digits s = foldl (\<lambda>n c. 10 * n + digit_val c) 0 s"

definition all_digits :: "string \<Rightarrow> bool" where
  "all_digits s \<longleftrightarrow> s \<noteq> [] \<and> list_all (\<lambda>c. c \<in> set digits) s"

text \<open>
  \<^verbatim>\<open>int(s)\<close> on the strings the patterns capture: decimal digits, with a sign in front
  for the hour of a zone offset. Any other text is a \<^verbatim>\<open>ValueError\<close>.
\<close>

definition py_int :: "string \<Rightarrow> error + int" where
  "py_int s =
     (case s of
        [] \<Rightarrow> Inl ValueError
      | x # xs \<Rightarrow>
          if x = CHR ''-'' \<and> all_digits xs then Inr (- int (nat_of_digits xs))
          else if x = CHR ''+'' \<and> all_digits xs then Inr (int (nat_of_digits xs))
          else if all_digits s then Inr (int (nat_of_digits s))
          else Inl ValueError)"

text \<open>
  \<^verbatim>\<open>int(g)\<close> for a group: a group that did not take part is \<^verbatim>\<open>None\<close>, on which
  \<^verbatim>\<open>int\<close> raises a \<^verbatim>\<open>TypeError\<close>.
\<close>

definition int_group :: "string option \<Rightarrow> error + int" where
  "int_group g = (case g of None \<Rightarrow> Inl TypeError | Some s \<Rightarrow> py_int s)"

text \<open>\<^verbatim>\<open>int(g or 0)\<close>: a group that did not take part, or is empty, counts as 0.\<close>

definition int_or0 :: "string option \<Rightarrow> error + int" where
  "int_or0 g = (case g of None \<Rightarrow> Inr 0 | Some s \<Rightarrow> if s = [] then Inr 0 else py_int s)"

text \<open>
  A Python float is an IEEE 754 binary64 number: a rational that the format represents,
  or the infinity that an overflow gives. Every float of this module comes from an
  unsigned decimal or a positive constant, so neither a negative infinity nor a NaN can
  arise. \<open>round_double\<close> is the rounding of the format (to nearest, ties to even, 53
  bits of precision, least exponent -1022, overflow from \<open>2^1024\<close>); each float operation
  is the exact operation followed by this rounding.
\<close>

datatype pyfloat = Fin rat | PInf

definition pow2 :: "int \<Rightarrow> rat" where
  "pow2 e = (if 0 \<le> e then 2 ^ nat e else 1 / 2 ^ nat (- e))"

definition round_half_even :: "rat \<Rightarrow> int" where
  "round_half_even x =
     (let f = \<lfloor>x\<rfloor>; r = x - of_int f
      in if r < 1 / 2 then f else if 1 / 2 < r then f + 1
         else if even f then f else f + 1)"

text \<open>The binary exponent of a non-zero rational: \<open>2^e \<le> |x| < 2^(e + 1)\<close>.\<close>

definition ilog2 :: "rat \<Rightarrow> int" where
  "ilog2 x =
     (let (p, q) = quotient_of \<bar>x\<bar>; k = bitlen p - bitlen q
      in if pow2 k \<le> \<bar>x\<bar> then k else k - 1)"

definition round_double :: "rat \<Rightarrow> pyfloat" where
  "round_double x =
     (if x = 0 then Fin 0
      else let e = max (ilog2 x) (- 1022);
               u = pow2 (e - 52);
               r = of_int (round_half_even (x / u)) * u
           in if pow2 1024 \<le> \<bar>r\<bar> then PInf else Fin r)"

definition nonneg_float :: "pyfloat \<Rightarrow> bool" where
  "nonneg_float x = (case x of Fin r \<Rightarrow> 0 \<le> r | PInf \<Rightarrow> True)"

definition fadd :: "pyfloat \<Rightarrow> pyfloat \<Rightarrow> pyfloat" where
  "fadd a b = (case (a, b) of (Fin x, Fin y) \<Rightarrow> round_double (x + y) | _ \<Rightarrow> PInf)"

definition fmul :: "pyfloat \<Rightarrow> pyfloat \<Rightarrow> pyfloat" where
  "fmul a b = (case (a, b) of (Fin x, Fin y) \<Rightarrow> round_double (x * y) | _ \<Rightarrow> PInf)"

text \<open>
  \<^verbatim>\<open>float(s)\<close> on the strings the duration pattern captures, \<^verbatim>\<open>\d+(\.\d+)?\<close>: the
  decimal value, correctly rounded. Any other text is a \<^verbatim>\<open>ValueError\<close>.
\<close>

definition decimal_value :: "string \<Rightarrow> string \<Rightarrow> rat" where
  "decimal_value ip fp =
     of_nat (nat_of_digits ip) + of_nat (nat_of_digits fp) / 10 ^ length fp"

definition py_float :: "string \<Rightarrow> error + pyfloat" where
  "py_float s =
     (let ip = takeWhile (\<lambda>c. c \<noteq> CHR ''.'') s;
          rest = dropWhile (\<lambda>c. c \<noteq> CHR ''.'') s
      in if \<not> all_digits ip then Inl ValueError
         else if rest = [] then Inr (round_double (decimal_value ip []))
         else if all_digits (tl rest) then Inr (round_double (decimal_value ip (tl rest)))
         else Inl ValueError)"

text \<open>\<^verbatim>\<open>float(g or 0)\<close>.\<close>

definition float_or0 :: "string option \<Rightarrow> error + pyfloat" where
  "float_or0 g =
     (case g of None \<Rightarrow> Inr (Fin 0) | Some s \<Rightarrow> if s = [] then Inr (Fin 0) else py_float s)"

definition bind :: "error + 'a \<Rightarrow> ('a \<Rightarrow> error + 'b) \<Rightarrow> error + 'b" where
  "bind m f = (case m of Inl e \<Rightarrow> Inl e | Inr x \<Rightarrow> f x)"

subsection \<open>Decimal output\<close>

definition digit_char :: "nat \<Rightarrow> char" where
  "digit_char n = char_of (48 + n)"

fun dec :: "nat \<Rightarrow> string" where
  "dec n = (if n < 10 then [digit_char n] else dec (n div 10) @ [digit_char (n mod 10)])"

declare dec.simps [simp del]

text \<open>\<^verbatim>\<open>'%d' % i\<close>.\<close>

definition py_str_int :: "int \<Rightarrow> string" where
  "py_str_int i = (if i < 0 then CHR ''-'' # dec (nat (- i)) else dec (nat i))"

text \<open>
  \<^verbatim>\<open>'%.6f' % x\<close>: the exact value of the float rounded to six decimals (ties to
  even), the fraction padded with zeros to six digits.
\<close>

definition pad6 :: "string \<Rightarrow> string" where
  "pad6 s = replicate (6 - length s) CHR ''0'' @ s"

definition fmt_6f :: "pyfloat \<Rightarrow> string" where
  "fmt_6f x =
     (case x of
        PInf \<Rightarrow> ''inf''
      | Fin r \<Rightarrow>
          (let n = nat (round_half_even (\<bar>r\<bar> * 1000000))
           in (if r < 0 then ''-'' else []) @ dec (n div 1000000) @ ''.'' @
              pad6 (dec (n mod 1000000))))"

subsection \<open>timedelta\<close>

text \<open>
  The constructor of \<^verbatim>\<open>timedelta\<close> belongs to Python's standard library; the module
  calls it as \<^verbatim>\<open>timedelta(days, fsec)\<close> with two floats and as
  \<^verbatim>\<open>timedelta(hours=h, minutes=m)\<close> with two integers. The definitions follow
  CPython's \<^verbatim>\<open>delta_new\<close>: every argument is accumulated into an exact number of
  microseconds, the fraction of a float argument going through float arithmetic into
  \<open>leftover\<close>, which is rounded to a whole number of microseconds at the end (ties to
  even).
\<close>

definition ZERO :: timedelta where
  "ZERO = \<lparr>days = 0, seconds = 0, microseconds = 0\<rparr>"

definition us_per_second :: int where "us_per_second = 1000000"
definition us_per_minute :: int where "us_per_minute = 60000000"
definition us_per_hour :: int where "us_per_hour = 3600000000"
definition us_per_day :: int where "us_per_day = 86400000000"

definition microseconds_to_delta :: "int \<Rightarrow> error + timedelta" where
  "microseconds_to_delta x =
     (let s = x div 1000000; us = x mod 1000000; d = s div 86400; s' = s mod 86400
      in if d < - 999999999 \<or> 999999999 < d then Inl OverflowError
         else Inr \<lparr>days = d, seconds = s', microseconds = us\<rparr>)"

definition td_to_us :: "timedelta \<Rightarrow> int" where
  "td_to_us v = (days v * 86400 + seconds v) * 1000000 + microseconds v"

text \<open>C's \<^verbatim>\<open>modf\<close>: the fraction and the integer part, both with the sign of \<open>x\<close>.\<close>

definition modf :: "rat \<Rightarrow> rat \<times> int" where
  "modf x = (let i = (if 0 \<le> x then \<lfloor>x\<rfloor> else \<lceil>x\<rceil>) in (x - of_int i, i))"

text \<open>C's \<^verbatim>\<open>round\<close>: to the nearest integer, ties away from zero.\<close>

definition c_round :: "rat \<Rightarrow> int" where
  "c_round x = (if 0 \<le> x then \<lfloor>x + 1 / 2\<rfloor> else \<lceil>x - 1 / 2\<rceil>)"

text \<open>\<^verbatim>\<open>accum\<close> for a float argument: the running sum and the leftover fraction.\<close>

definition accum :: "int \<Rightarrow> pyfloat \<Rightarrow> int \<Rightarrow> pyfloat \<Rightarrow> error + (int \<times> pyfloat)" where
  "accum sofar n factor leftover =
     (case n of
        PInf \<Rightarrow> Inl OverflowError
      | Fin dnum \<Rightarrow>
          (let (fracpart, intpart) = modf dnum;
               sum = sofar + intpart * factor
           in if fracpart = 0 then Inr (sum, leftover)
              else (case fmul (round_double (of_int factor)) (Fin fracpart) of
                      PInf \<Rightarrow> Inl OverflowError
                    | Fin dnum' \<Rightarrow>
                        (let (fracpart', intpart') = modf dnum'
                         in Inr (sum + intpart', fadd leftover (Fin fracpart'))))))"

text \<open>
  The final rounding of \<^verbatim>\<open>delta_new\<close>. In the tie case the leftover is a small
  half-integer, on which the float operations of the source are exact.
\<close>

definition round_leftover :: "int \<Rightarrow> pyfloat \<Rightarrow> error + int" where
  "round_leftover x leftover =
     (case leftover of
        PInf \<Rightarrow> Inl OverflowError
      | Fin l \<Rightarrow>
          if l = 0 then Inr x
          else (let whole_us = c_round l;
                    x_is_odd = (if odd x then 1 else 0);
                    whole_us' =
                      (if \<bar>of_int whole_us - l\<bar> = 1 / 2
                       then 2 * c_round ((l + of_int x_is_odd) * (1 / 2)) - x_is_odd
                       else whole_us)
                in Inr (x + whole_us')))"

text \<open>\<^verbatim>\<open>timedelta(days, seconds)\<close> with two floats: the seconds are accumulated first.\<close>

definition timedelta_of_floats :: "pyfloat \<Rightarrow> pyfloat \<Rightarrow> error + timedelta" where
  "timedelta_of_floats d s =
     bind (accum 0 s us_per_second (Fin 0)) (\<lambda>(x, leftover).
     bind (accum x d us_per_day leftover) (\<lambda>(x', leftover').
     bind (round_leftover x' leftover') microseconds_to_delta))"

text \<open>\<^verbatim>\<open>timedelta(hours=h, minutes=m)\<close> with two integers.\<close>

definition timedelta_of_hm :: "int \<Rightarrow> int \<Rightarrow> error + timedelta" where
  "timedelta_of_hm h m = microseconds_to_delta (m * us_per_minute + h * us_per_hour)"

text \<open>\<^verbatim>\<open>-value\<close>.\<close>

definition timedelta_neg :: "timedelta \<Rightarrow> error + timedelta" where
  "timedelta_neg v = microseconds_to_delta (- td_to_us v)"

subsection \<open>parse_duration and encode_duration\<close>

definition parse_duration :: "pyvalue \<Rightarrow> error + timedelta" where
  "parse_duration v =
     (case v of
        Timedelta t \<Rightarrow> Inr t
      | Str s \<Rightarrow>
          (case re_match RE_ISO_8601_DURATION s of
             None \<Rightarrow> Inl ValueError
           | Some m \<Rightarrow>
               (let sign = (if m g_sign = Some ''-'' then - 1 else (1::int))
                in bind (float_or0 (m g_days)) (\<lambda>d.
                   bind (float_or0 (m g_months)) (\<lambda>mo.
                   bind (float_or0 (m g_years)) (\<lambda>y.
                   bind (float_or0 (m g_seconds)) (\<lambda>se.
                   bind (float_or0 (m g_minutes)) (\<lambda>mi.
                   bind (float_or0 (m g_hours)) (\<lambda>h.
                     let days1 = fadd (fadd d (fmul mo (Fin 30))) (fmul y (Fin 365));
                         fsec = fadd (fadd se (fmul mi (Fin 60))) (fmul h (Fin 3600))
                     in if sign < 0 then Inl ValueError
                        else timedelta_of_floats days1 fsec))))))))
      | _ \<Rightarrow> Inl TypeError)"

text \<open>
  Lines 187 to 204 of \<^verbatim>\<open>encode_duration\<close>: the items appended for the value once the
  sign has been dealt with.
\<close>

definition encode_items :: "timedelta \<Rightarrow> string" where
  "encode_items t =
     (let items1 = ''P'';
          items2 =
            (if days t \<noteq> 0 then items1 @ py_str_int (days t) @ ''D''
             else if seconds t = 0 \<and> microseconds t = 0 then items1 @ ''T0S''
             else items1);
          items3 =
            (if seconds t \<noteq> 0 \<or> microseconds t \<noteq> 0 then
               (let minutes0 = seconds t div 60; sec = seconds t mod 60;
                    hours = minutes0 div 60; minutes = minutes0 mod 60
                in items2 @ ''T'' @
                   (if hours \<noteq> 0 then py_str_int hours @ ''H'' else []) @
                   (if minutes \<noteq> 0 then py_str_int minutes @ ''M'' else []) @
                   (if microseconds t \<noteq> 0 then
                      fmt_6f (fadd (Fin (of_int sec))
                        (fmul (round_double (1 / 1000000))
                              (Fin (of_int (microseconds t))))) @ ''S''
                    else if sec \<noteq> 0 then py_str_int sec @ ''S''
                    else []))
             else items2)
      in items3)"

definition encode_duration :: "pyvalue \<Rightarrow> error + string" where
  "encode_duration v =
     (case v of
        Timedelta v0 \<Rightarrow>
          if days v0 < 0
          then bind (timedelta_neg v0) (\<lambda>t. Inr (CHR ''-'' # encode_items t))
          else Inr (encode_items v0)
      | _ \<Rightarrow> Inl ValueError)"

text \<open>
  The grammar that the specification gives for the text of a duration,
  \<^verbatim>\<open>P(nD)?(T(nH)?(nM)?(nS(.ffffff)?)?)?\<close> or the literal \<^verbatim>\<open>PT0S\<close>, and what it means
  for a whole string to match an expression.
\<close>

definition spec_duration_grammar :: re where
  "spec_duration_grammar =
     Alt (seqs [Chr CHR ''P'',
            Opt (Seq (Rep digits 1 None) (Chr CHR ''D'')),
            Opt (seqs [Chr CHR ''T'',
              Opt (Seq (Rep digits 1 None) (Chr CHR ''H'')),
              Opt (Seq (Rep digits 1 None) (Chr CHR ''M'')),
              Opt (seqs [Rep digits 1 None,
                Opt (Seq (Chr CHR ''.'') (Rep digits 6 (Some 6))),
                Chr CHR ''S''])])])
         (seqs [Chr CHR ''P'', Chr CHR ''T'', Chr CHR ''0'', Chr CHR ''S''])"

definition full_match :: "re \<Rightarrow> string \<Rightarrow> bool" where
  "full_match r s = list_ex (\<lambda>(rest, c). rest = []) (rmatch r s (\<lambda>_. None))"

subsection \<open>date and datetime\<close>

text \<open>
  The calendar of Python's \<^verbatim>\<open>datetime\<close> module (proleptic Gregorian, day 1 is
  0001-01-01), as its reference implementation computes it.
\<close>

definition MINYEAR :: int where "MINYEAR = 1"
definition MAXYEAR :: int where "MAXYEAR = 9999"
definition MAXORDINAL :: int where "MAXORDINAL = 3652059"

definition DAYS_IN_MONTH :: "int list" where
  "DAYS_IN_MONTH = [31, 28, 31, 30, 31, 30, 31, 31, 30, 31, 30, 31]"

definition DAYS_BEFORE_MONTH :: "int list" where
  "DAYS_BEFORE_MONTH = [0, 31, 59, 90, 120, 151, 181, 212, 243, 273, 304, 334]"

definition is_leap :: "int \<Rightarrow> bool" where
  "is_leap y \<longleftrightarrow> y mod 4 = 0 \<and> (y mod 100 \<noteq> 0 \<or> y mod 400 = 0)"

definition days_before_year :: "int \<Rightarrow> int" where
  "days_before_year yr = (let y = yr - 1 in y * 365 + y div 4 - y div 100 + y div 400)"

text \<open>Both tables are read with a month between 1 and 12 only.\<close>

definition days_in_month :: "int \<Rightarrow> int \<Rightarrow> int" where
  "days_in_month y m =
     (if m = 2 \<and> is_leap y then 29 else DAYS_IN_MONTH ! nat (m - 1))"

definition days_before_month :: "int \<Rightarrow> int \<Rightarrow> int" where
  "days_before_month y m =
     DAYS_BEFORE_MONTH ! nat (m - 1) + (if 2 < m \<and> is_leap y then 1 else 0)"

definition ymd2ord :: "int \<Rightarrow> int \<Rightarrow> int \<Rightarrow> int" where
  "ymd2ord y m d = days_before_year y + days_before_month y m + d"

definition ord2ymd :: "int \<Rightarrow> date" where
  "ord2ymd n0 =
     (let n = n0 - 1;
          n400 = n div 146097; n = n mod 146097;
          n100 = n div 36524; n = n mod 36524;
          n4 = n div 1461; n = n mod 1461;
          n1 = n div 365; n = n mod 365;
          y = n400 * 400 + 1 + n100 * 100 + n4 * 4 + n1
      in if n1 = 4 \<or> n100 = 4 then \<lparr>year = y - 1, month = 12, day = 31\<rparr>
         else (let leapyear = (n1 = 3 \<and> (n4 \<noteq> 24 \<or> n100 = 3));
                   m = (n + 50) div 32;
                   preceding =
                     DAYS_BEFORE_MONTH ! nat (m - 1) + (if 2 < m \<and> leapyear then 1 else 0)
               in if n < preceding
                  then (let m' = m - 1;
                            preceding' = preceding -
                              (DAYS_IN_MONTH ! nat (m' - 1) +
                               (if m' = 2 \<and> leapyear then 1 else 0))
                        in \<lparr>year = y, month = m', day = n - preceding' + 1\<rparr>)
                  else \<lparr>year = y, month = m, day = n - preceding + 1\<rparr>))"

text \<open>
  The constructor \<^verbatim>\<open>datetime(year, month, day, hour, minute, second, microsecond,
  tzinfo)\<close>: a field out of range is a \<^verbatim>\<open>ValueError\<close>.
\<close>

definition datetime_new ::
  "int \<Rightarrow> int \<Rightarrow> int \<Rightarrow> int \<Rightarrow> int \<Rightarrow> int \<Rightarrow> int \<Rightarrow> TimeZone option \<Rightarrow> error + datetime" where
  "datetime_new y m d hh mm ss us tz =
     (if \<not> (MINYEAR \<le> y \<and> y \<le> MAXYEAR) then Inl ValueError
      else if \<not> (1 \<le> m \<and> m \<le> 12) then Inl ValueError
      else if \<not> (1 \<le> d \<and> d \<le> days_in_month y m) then Inl ValueError
      else if \<not> (0 \<le> hh \<and> hh \<le> 23) then Inl ValueError
      else if \<not> (0 \<le> mm \<and> mm \<le> 59) then Inl ValueError
      else if \<not> (0 \<le> ss \<and> ss \<le> 59) then Inl ValueError
      else if \<not> (0 \<le> us \<and> us \<le> 999999) then Inl ValueError
      else Inr \<lparr>year = y, month = m, day = d, hour = hh, minute = mm, second = ss,
                 microsecond = us, tzinfo = tz\<rparr>)"

text \<open>\<^verbatim>\<open>value.date()\<close>.\<close>

definition date_of :: "datetime \<Rightarrow> date" where
  "date_of v = \<lparr>year = year v, month = month v, day = day v\<rparr>"

text \<open>
  \<^verbatim>\<open>dt + delta\<close> and \<^verbatim>\<open>dt - delta\<close>: the date-time as microseconds since day 0,
  the sum split again into a day number and a time of day; a day outside
  \<open>1..MAXORDINAL\<close> is an \<^verbatim>\<open>OverflowError\<close>. The zone is kept.
\<close>

definition datetime_to_us :: "datetime \<Rightarrow> int" where
  "datetime_to_us v =
     (((ymd2ord (year v) (month v) (day v) * 24 + hour v) * 60 + minute v) * 60 + second v)
       * 1000000 + microsecond v"

definition datetime_add :: "datetime \<Rightarrow> timedelta \<Rightarrow> error + datetime" where
  "datetime_add v delta =
     (let total = datetime_to_us v + td_to_us delta;
          us = total mod 1000000; s = total div 1000000;
          d = s div 86400; rem = s mod 86400
      in if 0 < d \<and> d \<le> MAXORDINAL
         then (let ymd = ord2ymd d
               in Inr \<lparr>year = year ymd, month = month ymd, day = day ymd,
                         hour = rem div 3600, minute = rem mod 3600 div 60,
                         second = rem mod 3600 mod 60, microsecond = us,
                         tzinfo = tzinfo v\<rparr>)
         else Inl OverflowError)"

definition datetime_sub :: "datetime \<Rightarrow> timedelta \<Rightarrow> error + datetime" where
  "datetime_sub v delta = bind (timedelta_neg delta) (datetime_add v)"

text \<open>
  An offset that a zone returns has to lie strictly between minus and plus 24 hours,
  otherwise the call of \<^verbatim>\<open>utcoffset\<close> or \<^verbatim>\<open>dst\<close> through a datetime is a
  \<^verbatim>\<open>ValueError\<close>.
\<close>

definition check_offset :: "timedelta \<Rightarrow> error + timedelta" where
  "check_offset off =
     (if (days off = - 1 \<and> seconds off = 0 \<and> microseconds off < 1)
         \<or> days off < - 1 \<or> 1 \<le> days off
      then Inl ValueError else Inr off)"

definition UTC :: TimeZone where
  "UTC = \<lparr>offset = ZERO, label = ''UTC''\<rparr>"

text \<open>
  \<^verbatim>\<open>tzinfo.fromutc\<close>, which \<^verbatim>\<open>TimeZone\<close> inherits: the standard time is the
  argument moved by \<^verbatim>\<open>utcoffset - dst\<close>, and a non-zero \<^verbatim>\<open>dst\<close> is added.
\<close>

definition fromutc :: "TimeZone \<Rightarrow> datetime \<Rightarrow> error + datetime" where
  "fromutc tz v =
     bind (check_offset (utcoffset tz)) (\<lambda>dtoff.
     bind (check_offset (dst tz)) (\<lambda>dtdst.
       let delta = td_to_us dtoff - td_to_us dtdst
       in bind (if delta \<noteq> 0
                then bind (microseconds_to_delta delta) (datetime_add v) else Inr v) (\<lambda>v'.
          bind (check_offset (dst tz)) (\<lambda>dtdst'.
            if dtdst' \<noteq> ZERO then datetime_add v' dtdst' else Inr v'))))"

text \<open>
  \<^verbatim>\<open>value.astimezone(tz)\<close> for a value that carries the zone \<open>mytz\<close>: the offset of
  the zone is subtracted, the new zone attached, and \<^verbatim>\<open>fromutc\<close> of the new zone does
  the rest.
\<close>

definition astimezone :: "TimeZone \<Rightarrow> datetime \<Rightarrow> TimeZone \<Rightarrow> error + datetime" where
  "astimezone mytz v tz =
     bind (check_offset (utcoffset mytz)) (\<lambda>myoffset.
     bind (datetime_sub v myoffset) (\<lambda>utc.
       fromutc tz (utc\<lparr>tzinfo := Some tz\<rparr>)))"

subsection \<open>parse_datetime and parse_date\<close>

definition to_utc_naive :: "datetime \<Rightarrow> error + datetime" where
  "to_utc_naive v =
     (case tzinfo v of
        None \<Rightarrow> Inr v
      | Some mytz \<Rightarrow> bind (astimezone mytz v UTC) (\<lambda>v'. Inr (v'\<lparr>tzinfo := None\<rparr>)))"

text \<open>\<^verbatim>\<open>g or d\<close> for a group and a default string.\<close>

definition str_or :: "string option \<Rightarrow> string \<Rightarrow> string" where
  "str_or g d = (case g of None \<Rightarrow> d | Some s \<Rightarrow> if s = [] then d else s)"

text \<open>
  The two patterns are tried in turn; the ten groups are the same in both:
  year, month, day, hour, minute, sec, usec, tzone, tz_hour, tz_min.
\<close>

definition match_datetime :: "string \<Rightarrow> caps option" where
  "match_datetime s =
     (case re_match RE_ISO_8601_DATETIME_LONG s of
        Some g \<Rightarrow> Some g
      | None \<Rightarrow> re_match RE_ISO_8601_DATETIME_SHORT s)"

text \<open>
  The zone of the parsed text, lines 117 to 126 of the source. The minutes of an offset
  are read with the sign character of the hour group in front, \<^verbatim>\<open>tz_hour[0]\<close>.
\<close>

definition tz_of_groups :: "caps \<Rightarrow> TimeZone option \<Rightarrow> error + TimeZone option" where
  "tz_of_groups g tz_local =
     (case g 8 of
        None \<Rightarrow> Inr tz_local
      | Some tzone \<Rightarrow>
          if tzone = [] then Inr tz_local
          else if tzone = ''Z'' then Inr (Some UTC)
          else bind (int_or0 (g 9)) (\<lambda>h.
               bind (case g 9 of
                       None \<Rightarrow> Inl TypeError
                     | Some [] \<Rightarrow> Inl IndexError
                     | Some (c # _) \<Rightarrow> py_int (c # str_or (g 10) ''0'')) (\<lambda>m.
               bind (timedelta_of_hm h m) (\<lambda>off.
                 Inr (Some \<lparr>offset = off,
                            label = str_or (g 9) ''None'' @ '':'' @ str_or (g 10) ''00''\<rparr>)))))"

text \<open>
  Lines 105 to 132 of \<^verbatim>\<open>parse_datetime\<close>: the timestamp that the input denotes,
  before the final normalisation. A string is matched and its fields are handed to the
  constructor; a value that is neither a string nor a datetime reaches
  \<^verbatim>\<open>pattern.match\<close>, which raises a \<^verbatim>\<open>TypeError\<close>.
\<close>

definition read_datetime :: "pyvalue \<Rightarrow> TimeZone option \<Rightarrow> error + datetime" where
  "read_datetime v tz_local =
     (case v of
        Datetime dt \<Rightarrow> Inr dt
      | Str s \<Rightarrow>
          (case match_datetime s of
             None \<Rightarrow> Inl ValueError
           | Some g \<Rightarrow>
               bind (tz_of_groups g tz_local) (\<lambda>tz_obj.
               bind (int_group (g 1)) (\<lambda>y.
               bind (int_group (g 2)) (\<lambda>m.
               bind (int_or0 (g 3)) (\<lambda>d.
               bind (int_or0 (g 4)) (\<lambda>hh.
               bind (int_or0 (g 5)) (\<lambda>mm.
               bind (int_or0 (g 6)) (\<lambda>ss.
               bind (py_int (take 6 (str_or (g 7) [] @ ''000000''))) (\<lambda>us.
                 datetime_new y m d hh mm ss us tz_obj)))))))))
      | _ \<Rightarrow> Inl TypeError)"

definition parse_datetime :: "pyvalue \<Rightarrow> TimeZone option \<Rightarrow> error + datetime" where
  "parse_datetime v tz_local = bind (read_datetime v tz_local) to_utc_naive"

definition parse_date :: "pyvalue \<Rightarrow> error + date" where
  "parse_date v =
     (case v of
        Date d \<Rightarrow> Inr d
      | _ \<Rightarrow> bind (parse_datetime v None) (\<lambda>dt. Inr (date_of dt)))"

subsection \<open>Notions used in the statements\<close>

text \<open>The seven named groups of a match of the duration pattern, in the order
  sign, years, months, days, hours, minutes, seconds.\<close>

definition dgroups :: "caps \<Rightarrow> string option list" where
  "dgroups m = map m [g_sign, g_years, g_months, g_days, g_hours, g_minutes, g_seconds]"

text \<open>
  A designator component of a match: the group is absent or a whole number (digits
  without a fraction), and the number it stands for.
\<close>

definition whole :: "string option \<Rightarrow> bool" where
  "whole g = (case g of None \<Rightarrow> True | Some ds \<Rightarrow> all_digits ds)"

definition component :: "string option \<Rightarrow> nat" where
  "component g = (case g of None \<Rightarrow> 0 | Some ds \<Rightarrow> nat_of_digits ds)"

text \<open>
  The text that section 4.5 of the specification prescribes for an elapsed time that is
  not negative: \<^verbatim>\<open>P\<close>, the days if there are any, \<^verbatim>\<open>T0S\<close> for the zero duration, and
  for a sub-day remainder \<^verbatim>\<open>T\<close> with the hours, minutes and seconds that are not zero,
  the seconds with six decimals when there are microseconds.
\<close>

definition spec_text :: "timedelta \<Rightarrow> string" where
  "spec_text t =
     ''P'' @
     (if days t \<noteq> 0 then dec (nat (days t)) @ ''D''
      else if seconds t = 0 \<and> microseconds t = 0 then ''T0S'' else []) @
     (if seconds t \<noteq> 0 \<or> microseconds t \<noteq> 0 then
        ''T'' @
        (if seconds t div 3600 \<noteq> 0 then dec (nat (seconds t div 3600)) @ ''H'' else []) @
        (if seconds t div 60 mod 60 \<noteq> 0
         then dec (nat (seconds t div 60 mod 60)) @ ''M'' else []) @
        (if microseconds t \<noteq> 0
         then dec (nat (seconds t mod 60)) @ ''.'' @ pad6 (dec (nat (microseconds t))) @ ''S''
         else if seconds t mod 60 \<noteq> 0 then dec (nat (seconds t mod 60)) @ ''S''
         else [])
      else [])"

text \<open>
  The number that a designator component of a match stands for: 0 when the group is
  absent, else the decimal number that the group spells, the digits before the point
  and, when there is a point, the digits after it as the fraction.
\<close>

definition quantity :: "string option \<Rightarrow> rat" where
  "quantity g =
     (case g of
        None \<Rightarrow> 0
      | Some s \<Rightarrow>
          (let ip = takeWhile (\<lambda>c. c \<noteq> CHR ''.'') s; fp = drop (Suc (length ip)) s
           in of_nat (nat_of_digits ip) + of_nat (nat_of_digits fp) / 10 ^ length fp))"

text \<open>
  The elapsed time that the decoding policy of section 4.4 of the specification gives
  the components of a match, in microseconds: a year counts 365 days, a month 30
  days, and days, hours, minutes and seconds are summed up.
\<close>

definition policy_us :: "caps \<Rightarrow> rat" where
  "policy_us m =
     ((365 * quantity (m g_years) + 30 * quantity (m g_months) + quantity (m g_days)) * 86400
      + (3600 * quantity (m g_hours) + 60 * quantity (m g_minutes) + quantity (m g_seconds)))
     * 1000000"

text \<open>
  A decimal number as the duration pattern takes it, \<^verbatim>\<open>\d+(\.\d+)?\<close>: digits, and
  optionally a point with digits after it.
\<close>

definition decimal :: "string \<Rightarrow> bool" where
  "decimal s \<longleftrightarrow>
     all_digits (takeWhile (\<lambda>c. c \<noteq> CHR ''.'') s) \<and>
     (dropWhile (\<lambda>c. c \<noteq> CHR ''.'') s = [] \<or>
      all_digits (tl (dropWhile (\<lambda>c. c \<noteq> CHR ''.'') s)))"

text \<open>The ten groups of a match of a date-time pattern, in their order.\<close>

definition dtgroups :: "caps \<Rightarrow> string option list" where
  "dtgroups g = map g [1, 2, 3, 4, 5, 6, 7, 8, 9, 10]"

text \<open>
  What the zone groups 8, 9 and 10 (tzone, tz_hour, tz_min) of a match can be: none of
  them set; \<^verbatim>\<open>Z\<close> alone; or a sign with two digits as the hour, the whole zone text
  beginning with the sign, and the minutes unset or two digits.
\<close>

definition zone_shape :: "caps \<Rightarrow> bool" where
  "zone_shape g \<longleftrightarrow>
     (g 8 = None \<and> g 9 = None \<and> g 10 = None) \<or>
     (g 8 = Some ''Z'' \<and> g 9 = None \<and> g 10 = None) \<or>
     (\<exists>sg a b z. g 8 = Some (sg # z) \<and> g 9 = Some [sg, a, b] \<and>
        (sg = CHR ''+'' \<or> sg = CHR ''-'') \<and> a \<in> set digits \<and> b \<in> set digits \<and>
        (g 10 = None \<or>
         (\<exists>m1 m2. g 10 = Some [m1, m2] \<and> m1 \<in> set digits \<and> m2 \<in> set digits)))"

text \<open>An expression whose matches, started without zone groups, end with zone groups
  of that shape.\<close>

definition zoned :: "re \<Rightarrow> bool" where
  "zoned r \<longleftrightarrow>
     (\<forall>s c t c'. c 8 = None \<and> c 9 = None \<and> c 10 = None \<and> (t, c') \<in> set (rmatch r s c)
        \<longrightarrow> zone_shape c')"

lemma pow2_pos: "0 < pow2 e"
  by (simp add: pow2_def)

lemma pow2_powi: "pow2 e = 2 powi e"
  by (simp add: pow2_def power_int_def field_simps)

lemma pow2_mono: "a \<le> b \<Longrightarrow> pow2 a \<le> pow2 b"
  by (simp add: pow2_powi power_int_increasing)

lemma pow2_less_D: "pow2 a < pow2 b \<Longrightarrow> a < b"
  using pow2_mono[of b a] by (cases "a < b") auto

lemma round_half_even_int: "round_half_even (of_int k) = k"
  by (simp add: round_half_even_def)

lemma round_half_even_nonneg: "0 \<le> x \<Longrightarrow> 0 \<le> round_half_even x"
  by (auto simp: round_half_even_def Let_def)

lemma ilog2_lower:
  assumes "x \<noteq> 0"
  shows "pow2 (ilog2 x) \<le> \<bar>x\<bar>"
proof -
  obtain p q where pq: "quotient_of \<bar>x\<bar> = (p, q)" by (cases "quotient_of \<bar>x\<bar>")
  have q: "0 < q" using pq by (rule quotient_of_denom_pos)
  have xe: "\<bar>x\<bar> = of_int p / of_int q" using pq by (rule quotient_of_div)
  have p: "0 < p"
  proof (rule ccontr)
    assume "\<not> 0 < p"
    then have "of_int p / (of_int q :: rat) \<le> 0" using q by (simp add: divide_le_0_iff)
    with xe assms show False by simp
  qed
  define k where "k = bitlen p - bitlen q"
  have bp: "2 ^ nat (bitlen p - 1) \<le> p" using bitlen_bounds[OF p] by simp
  have bq: "q < 2 ^ nat (bitlen q)" using bitlen_bounds[OF q] by simp
  have bp1: "1 \<le> bitlen p" using p by (simp add: bitlen_def floorlog_def)
  have bq1: "0 \<le> bitlen q" by (rule bitlen_nonneg)
  have low: "pow2 (k - 1) \<le> \<bar>x\<bar>"
  proof -
    have "pow2 (k - 1) = 2 powi (bitlen p - 1) / 2 powi (bitlen q)"
      by (simp add: pow2_powi k_def power_int_diff)
    also have "\<dots> = of_int (2 ^ nat (bitlen p - 1)) / of_int (2 ^ nat (bitlen q))"
      using bp1 bq1 by (simp add: power_int_def)
    also have "\<dots> \<le> of_int p / of_int q"
    proof (rule frac_le)
      show "(0::rat) \<le> of_int p" using p by simp
      show "(of_int (2 ^ nat (bitlen p - 1)) :: rat) \<le> of_int p" using bp by (simp only: of_int_le_iff)
      show "(0::rat) < of_int q" using q by simp
      show "(of_int q :: rat) \<le> of_int (2 ^ nat (bitlen q))"
        using bq by (simp only: of_int_le_iff)
    qed
    finally show ?thesis using xe by simp
  qed
  show ?thesis
    using low pq by (simp add: ilog2_def Let_def k_def)
qed

lemma round_double_int:
  assumes "\<bar>n\<bar> < 2 ^ 53"
  shows "round_double (of_int n) = Fin (of_int n)"
proof (cases "n = 0")
  case True
  then show ?thesis by (simp add: round_double_def)
next
  case False
  define x :: rat where "x = of_int n"
  have x0: "x \<noteq> 0" using False by (simp add: x_def)
  define e where "e = max (ilog2 x) (- 1022)"
  have "pow2 (ilog2 x) \<le> \<bar>x\<bar>" using x0 by (rule ilog2_lower)
  also have "\<bar>x\<bar> < 2 ^ 53"
  proof -
    have "\<bar>x\<bar> = of_int \<bar>n\<bar>" by (simp add: x_def)
    also have "\<dots> < of_int (2 ^ 53)" using assms by (simp only: of_int_less_iff)
    finally show ?thesis by simp
  qed
  also have "(2::rat) ^ 53 = pow2 53" by (simp add: pow2_def)
  finally have "ilog2 x < 53" by (rule pow2_less_D)
  then have e52: "e \<le> 52" by (simp add: e_def)
  define j where "j = nat (52 - e)"
  have u: "pow2 (e - 52) = 1 / 2 ^ j"
    using e52 by (cases "e = 52") (simp_all add: pow2_def j_def)
  have xu: "x / pow2 (e - 52) = of_int (n * 2 ^ j)"
    by (simp add: u x_def)
  have r: "of_int (round_half_even (x / pow2 (e - 52))) * pow2 (e - 52) = x"
    unfolding xu round_half_even_int by (simp add: u x_def)
  have big: "\<not> pow2 1024 \<le> \<bar>x\<bar>"
  proof -
    have "\<bar>x\<bar> < pow2 53" using \<open>\<bar>x\<bar> < 2 ^ 53\<close> by (simp add: pow2_def)
    also have "pow2 53 \<le> pow2 1024" by (rule pow2_mono) simp
    finally show ?thesis by simp
  qed
  show ?thesis
    using x0 r big unfolding x_def[symmetric] by (simp add: round_double_def Let_def e_def)
qed

lemma nonneg_float_Fin [simp]: "nonneg_float (Fin r) \<longleftrightarrow> 0 \<le> r"
  by (simp add: nonneg_float_def)

lemma nonneg_float_PInf [simp]: "nonneg_float PInf"
  by (simp add: nonneg_float_def)

lemma round_double_nonneg:
  assumes "0 \<le> x"
  shows "nonneg_float (round_double x)"
proof (cases "x = 0")
  case True
  then show ?thesis by (simp add: round_double_def)
next
  case False
  define u where "u = pow2 (max (ilog2 x) (- 1022) - 52)"
  have u: "0 < u" by (simp add: u_def pow2_pos)
  have "0 \<le> x / u" using assms u by simp
  then have "0 \<le> round_half_even (x / u)" by (rule round_half_even_nonneg)
  then have r: "0 \<le> rat_of_int (round_half_even (x / u)) * u" using u by simp
  have "round_double x =
      (if pow2 1024 \<le> \<bar>rat_of_int (round_half_even (x / u)) * u\<bar> then PInf
       else Fin (rat_of_int (round_half_even (x / u)) * u))"
    using False by (simp add: round_double_def Let_def u_def)
  then show ?thesis using r by simp
qed

lemma fadd_nonneg: "nonneg_float a \<Longrightarrow> nonneg_float b \<Longrightarrow> nonneg_float (fadd a b)"
  by (cases a; cases b) (simp_all add: fadd_def round_double_nonneg)

lemma fmul_nonneg: "nonneg_float a \<Longrightarrow> nonneg_float b \<Longrightarrow> nonneg_float (fmul a b)"
  by (cases a; cases b) (simp_all add: fmul_def round_double_nonneg)

lemma bind_Inl_iff: "bind m f = Inl e \<longleftrightarrow> m = Inl e \<or> (\<exists>x. m = Inr x \<and> f x = Inl e)"
  by (cases m) (auto simp: bind_def)

lemma bind_Inr_iff: "bind m f = Inr y \<longleftrightarrow> (\<exists>x. m = Inr x \<and> f x = Inr y)"
  by (cases m) (auto simp: bind_def)

lemma decimal_value_nonneg: "0 \<le> decimal_value ip fp"
  by (simp add: decimal_value_def)

lemma py_float_nonneg: "py_float s = Inr x \<Longrightarrow> nonneg_float x"
  by (auto simp: py_float_def Let_def split: if_splits
      intro!: round_double_nonneg decimal_value_nonneg)

lemma float_or0_nonneg: "float_or0 g = Inr x \<Longrightarrow> nonneg_float x"
  by (auto simp: float_or0_def split: option.splits if_splits dest: py_float_nonneg)

lemma modf_nonneg:
  "0 \<le> x \<Longrightarrow> modf x = (f, i) \<Longrightarrow> 0 \<le> f \<and> f < 1 \<and> 0 \<le> i"
  by (auto simp: modf_def Let_def) linarith+

lemma accum_nonneg:
  assumes "accum sofar n factor leftover = Inr (x, l)"
    and "0 \<le> sofar" and "nonneg_float n" and "0 \<le> factor" and "nonneg_float leftover"
  shows "0 \<le> x \<and> nonneg_float l"
proof (cases n)
  case PInf
  with assms show ?thesis by (simp add: accum_def)
next
  case (Fin d)
  with assms have d: "0 \<le> d" by simp
  obtain f i where m: "modf d = (f, i)" by (cases "modf d")
  from modf_nonneg[OF d m] have f: "0 \<le> f" and i: "0 \<le> i" by simp_all
  show ?thesis
  proof (cases "f = 0")
    case True
    with assms Fin m i show ?thesis by (auto simp: accum_def)
  next
    case False
    have nn: "nonneg_float (fmul (round_double (of_int factor)) (Fin f))"
      using assms(4) f by (intro fmul_nonneg round_double_nonneg) simp_all
    show ?thesis
    proof (cases "fmul (round_double (of_int factor)) (Fin f)")
      case PInf
      with assms Fin m False show ?thesis by (simp add: accum_def)
    next
      case (Fin d')
      with nn have d': "0 \<le> d'" by simp
      obtain f' i' where m': "modf d' = (f', i')" by (cases "modf d'")
      from modf_nonneg[OF d' m'] have f': "0 \<le> f'" and i': "0 \<le> i'" by simp_all
      have "x = sofar + i * factor + i'" and "l = fadd leftover (Fin f')"
        using assms(1) \<open>n = Fin d\<close> m False Fin m' by (simp_all add: accum_def)
      then show ?thesis
        using assms(2,4,5) i i' f' by (auto intro!: fadd_nonneg)
    qed
  qed
qed

lemma c_round_nonneg: "0 \<le> x \<Longrightarrow> 0 \<le> c_round x"
  by (simp add: c_round_def)

lemma round_leftover_nonneg:
  assumes "round_leftover x l = Inr y" and "0 \<le> x" and "nonneg_float l"
  shows "0 \<le> y"
proof (cases l)
  case PInf
  with assms show ?thesis by (simp add: round_leftover_def)
next
  case (Fin r)
  with assms have r: "0 \<le> r" by simp
  show ?thesis
  proof (cases "r = 0")
    case True
    with assms Fin show ?thesis by (simp add: round_leftover_def)
  next
    case False
    show ?thesis
    proof (cases "\<bar>of_int (c_round r) - r\<bar> = 1 / 2")
      case False
      with assms Fin \<open>r \<noteq> 0\<close> c_round_nonneg[OF r] show ?thesis
        by (auto simp: round_leftover_def Let_def)
    next
      case True
      have half: "1 / 2 \<le> r"
      proof (rule ccontr)
        assume "\<not> 1 / 2 \<le> r"
        then have "r + 1 / 2 < 1" by simp
        then have "c_round r = 0" using r by (simp add: c_round_def floor_eq_iff)
        with True r \<open>\<not> 1 / 2 \<le> r\<close> show False by simp
      qed
      have "1 \<le> c_round ((r + 1) * (1 / 2))"
      proof -
        have "1 \<le> (r + 1) * (1 / 2) + 1 / 2" using half by (simp add: field_simps)
        then have "1 \<le> \<lfloor>(r + 1) * (1 / 2) + 1 / 2\<rfloor>" by (simp add: le_floor_iff)
        then show ?thesis using r by (simp add: c_round_def)
      qed
      moreover have "0 \<le> c_round (r * (1 / 2))"
        using r by (intro c_round_nonneg) simp
      ultimately show ?thesis
        using assms Fin \<open>r \<noteq> 0\<close> True by (auto simp: round_leftover_def Let_def)
    qed
  qed
qed

lemma split_us:
  "86400000000 * (x div 1000000 div 86400) + x div 1000000 mod 86400 * 1000000
     + x mod 1000000 = (x::int)"
proof -
  define s where "s = x div 1000000"
  define d where "d = s div 86400"
  have 1: "x = s * 1000000 + x mod 1000000" by (simp add: s_def)
  have 2: "s = d * 86400 + s mod 86400" by (simp add: d_def)
  have "86400000000 * d + s mod 86400 * 1000000 + x mod 1000000
      = (d * 86400 + s mod 86400) * 1000000 + x mod 1000000"
    by (simp add: algebra_simps)
  also have "\<dots> = x" using 1 2 by simp
  finally show ?thesis by (simp add: s_def d_def)
qed

lemma microseconds_to_delta_valid:
  assumes "microseconds_to_delta x = Inr v"
  shows "valid_timedelta v \<and> td_to_us v = x"
proof -
  define d where "d = x div 1000000 div 86400"
  have r: "\<not> (d < - 999999999 \<or> 999999999 < d)"
    and v: "v = \<lparr>days = d, seconds = x div 1000000 mod 86400, microseconds = x mod 1000000\<rparr>"
    using assms by (auto simp: microseconds_to_delta_def Let_def d_def split: if_splits)
  have "valid_timedelta v" using r by (simp add: v valid_timedelta_def)
  moreover have "td_to_us v = x"
    using split_us[of x] by (simp add: v td_to_us_def d_def algebra_simps)
  ultimately show ?thesis by simp
qed

lemma timedelta_of_floats_nonneg:
  assumes "timedelta_of_floats d s = Inr v" and "nonneg_float d" and "nonneg_float s"
  shows "valid_timedelta v \<and> 0 \<le> td_to_us v"
proof -
  from assms(1) obtain x l x' l' y where
    a1: "accum 0 s us_per_second (Fin 0) = Inr (x, l)" and
    a2: "accum x d us_per_day l = Inr (x', l')" and
    r: "round_leftover x' l' = Inr y" and
    m: "microseconds_to_delta y = Inr v"
    by (auto simp: timedelta_of_floats_def bind_Inr_iff)
  from accum_nonneg[OF a1] assms(3) have x: "0 \<le> x" "nonneg_float l"
    by (simp_all add: us_per_second_def)
  from accum_nonneg[OF a2] x assms(2) have x': "0 \<le> x'" "nonneg_float l'"
    by (simp_all add: us_per_day_def)
  from round_leftover_nonneg[OF r] x' have "0 \<le> y" by simp
  with microseconds_to_delta_valid[OF m] show ?thesis by simp
qed

section \<open>Facts about the matcher\<close>

lemma rmatch_frame:
  "(s', c') \<in> set (rmatch r s c) \<Longrightarrow> i \<notin> groups r \<Longrightarrow> c' i = c i"
proof (induction r arbitrary: s c s' c')
  case (Chr a)
  then show ?case by (auto split: list.splits if_splits)
next
  case (Cls cs)
  then show ?case by (auto split: list.splits if_splits)
next
  case (Rep cs m n)
  then show ?case by auto
next
  case (Seq a b)
  from Seq.prems obtain s1 c1 where
    a: "(s1, c1) \<in> set (rmatch a s c)" and b: "(s', c') \<in> set (rmatch b s1 c1)"
    by auto
  have "c' i = c1 i" using Seq.IH(2)[OF b] Seq.prems(2) by simp
  moreover have "c1 i = c i" using Seq.IH(1)[OF a] Seq.prems(2) by simp
  ultimately show ?case by simp
next
  case (Alt a b)
  then show ?case by auto
next
  case (Opt a)
  then show ?case by auto
next
  case (Grp j a)
  then show ?case by auto
next
  case Eos
  then show ?case by (auto split: if_splits)
qed

lemma float_or0_error: "float_or0 g = Inl e \<Longrightarrow> e = ValueError"
  by (auto simp: float_or0_def py_float_def Let_def split: option.splits if_splits)

lemma duration_sign_groups:
  "1 \<notin> groups (seqs [Chr CHR ''P'',
       comp g_years CHR ''Y'', comp g_months CHR ''M'', comp g_days CHR ''D'',
       Opt (Chr CHR ''T''),
       comp g_hours CHR ''H'', comp g_minutes CHR ''M'', comp g_seconds CHR ''S'',
       Eos])"
  by (simp add: comp_def num_def g_years_def g_months_def g_days_def g_hours_def
      g_minutes_def g_seconds_def)

lemma duration_match_minus:
  assumes "re_match RE_ISO_8601_DURATION (CHR ''-'' # s) = Some m"
  shows "m g_sign = Some ''-''"
proof -
  define R where "R = seqs [Chr CHR ''P'',
       comp g_years CHR ''Y'', comp g_months CHR ''M'', comp g_days CHR ''D'',
       Opt (Chr CHR ''T''),
       comp g_hours CHR ''H'', comp g_minutes CHR ''M'', comp g_seconds CHR ''S'',
       Eos]"
  define c1 :: caps where "c1 = (\<lambda>_. None)(g_sign \<mapsto> ''-'')"
  have RE: "RE_ISO_8601_DURATION = Seq (Opt (Grp g_sign (Cls ''+-''))) R"
    by (simp add: RE_ISO_8601_DURATION_def R_def)
  have R': "R = Seq (Chr CHR ''P'') (seqs [
       comp g_years CHR ''Y'', comp g_months CHR ''M'', comp g_days CHR ''D'',
       Opt (Chr CHR ''T''),
       comp g_hours CHR ''H'', comp g_minutes CHR ''M'', comp g_seconds CHR ''S'',
       Eos])"
    by (simp add: R_def)
  have no: "rmatch R (CHR ''-'' # s) (\<lambda>_. None) = []"
    by (simp add: R')
  have all: "rmatch RE_ISO_8601_DURATION (CHR ''-'' # s) (\<lambda>_. None) = rmatch R s c1"
    by (simp add: RE no c1_def)
  from assms obtain rest more where hd: "rmatch R s c1 = (rest, m) # more"
    by (auto simp: re_match_def all split: list.splits)
  then have "(rest, m) \<in> set (rmatch R s c1)" by simp
  moreover have "g_sign \<notin> groups R"
    using duration_sign_groups by (simp add: R_def g_sign_def)
  ultimately have "m g_sign = c1 g_sign" by (rule rmatch_frame)
  then show ?thesis by (simp add: c1_def)
qed

lemma parse_duration_minus: "parse_duration (Str (CHR ''-'' # s)) = Inl ValueError"
proof (cases "re_match RE_ISO_8601_DURATION (CHR ''-'' # s)")
  case None
  then show ?thesis by (simp add: parse_duration_def)
next
  case (Some m)
  have sg: "m g_sign = Some ''-''" using Some by (rule duration_match_minus)
  obtain e where "parse_duration (Str (CHR ''-'' # s)) = Inl e"
    using Some sg
    by (cases "parse_duration (Str (CHR ''-'' # s))")
       (auto simp: parse_duration_def Let_def bind_Inr_iff)
  moreover from this have "e = ValueError"
    using Some sg
    by (auto simp: parse_duration_def Let_def bind_Inl_iff dest: float_or0_error)
  ultimately show ?thesis by simp
qed



section \<open>Exact float arithmetic on whole numbers\<close>

lemma round_double_nat:
  assumes "n < 2 ^ 53"
  shows "round_double (of_nat n) = Fin (of_nat n)"
proof -
  have "\<bar>int n\<bar> < 2 ^ 53" using assms by simp
  then have "round_double (of_int (int n)) = Fin (of_int (int n))" by (rule round_double_int)
  then show ?thesis by simp
qed

lemma fmul_nat:
  "a * b < 2 ^ 53 \<Longrightarrow> fmul (Fin (of_nat a)) (Fin (of_nat b)) = Fin (of_nat (a * b))"
  using round_double_nat[of "a * b"] by (simp add: fmul_def)

lemma fadd_nat:
  "a + b < 2 ^ 53 \<Longrightarrow> fadd (Fin (of_nat a)) (Fin (of_nat b)) = Fin (of_nat (a + b))"
  using round_double_nat[of "a + b"] by (simp add: fadd_def)

lemma modf_nat: "modf (of_nat a) = (0, int a)"
  by (simp add: modf_def)

lemma accum_nat:
  "accum sofar (Fin (of_nat a)) factor leftover = Inr (sofar + int a * factor, leftover)"
  by (simp add: accum_def modf_nat)

lemma round_leftover_zero: "round_leftover x (Fin 0) = Inr x"
  by (simp add: round_leftover_def)

lemma timedelta_of_floats_nat:
  "timedelta_of_floats (Fin (of_nat a)) (Fin (of_nat b)) =
     microseconds_to_delta (int b * 1000000 + int a * 86400000000)"
  by (simp add: timedelta_of_floats_def accum_nat bind_def round_leftover_zero
      us_per_second_def us_per_day_def)

lemma float_or0_None: "float_or0 None = Inr (Fin (of_nat 0))"
  by (simp add: float_or0_def)

lemma dot_not_digit: "CHR ''.'' \<notin> set digits"
  by (simp add: digits_def)

lemma all_digits_set: "all_digits ds \<Longrightarrow> c \<in> set ds \<Longrightarrow> c \<in> set digits"
  by (simp add: all_digits_def list_all_iff)

lemma all_digits_no_dot:
  assumes "all_digits ds"
  shows "takeWhile (\<lambda>c. c \<noteq> CHR ''.'') ds = ds"
proof -
  have "\<forall>c\<in>set ds. c \<noteq> CHR ''.''"
    using all_digits_set[OF assms] dot_not_digit by blast
  then show ?thesis by (simp add: takeWhile_eq_all_conv)
qed

lemma float_or0_digits:
  assumes "all_digits ds" and "nat_of_digits ds < 2 ^ 53"
  shows "float_or0 (Some ds) = Inr (Fin (of_nat (nat_of_digits ds)))"
proof -
  have ne: "ds \<noteq> []" using assms(1) by (simp add: all_digits_def)
  have tw: "takeWhile (\<lambda>c. c \<noteq> CHR ''.'') ds = ds" using assms(1) by (rule all_digits_no_dot)
  have dw: "dropWhile (\<lambda>c. c \<noteq> CHR ''.'') ds = []"
    using takeWhile_dropWhile_id[of "\<lambda>c. c \<noteq> CHR ''.''" ds] tw by simp
  have rd: "round_double (of_nat (nat_of_digits ds)) = Fin (of_nat (nat_of_digits ds))"
    using assms(2) by (rule round_double_nat)
  have z: "nat_of_digits [] = 0" by (simp add: nat_of_digits_def)
  have dv: "decimal_value ds [] = of_nat (nat_of_digits ds)"
    unfolding decimal_value_def z by simp
  show ?thesis
    by (simp add: float_or0_def py_float_def Let_def ne tw dw assms(1) dv rd)
qed

lemma dgroups_eq:
  "dgroups m = [a, b, c, d, e, f, g] \<longleftrightarrow>
     m g_sign = a \<and> m g_years = b \<and> m g_months = c \<and> m g_days = d \<and>
     m g_hours = e \<and> m g_minutes = f \<and> m g_seconds = g"
  by (auto simp: dgroups_def)

lemma parse_duration_Str:
  assumes "re_match RE_ISO_8601_DURATION s = Some m" and "m g_sign \<noteq> Some ''-''"
    and "float_or0 (m g_days) = Inr d" and "float_or0 (m g_months) = Inr mo"
    and "float_or0 (m g_years) = Inr y" and "float_or0 (m g_seconds) = Inr se"
    and "float_or0 (m g_minutes) = Inr mi" and "float_or0 (m g_hours) = Inr h"
  shows "parse_duration (Str s) =
     timedelta_of_floats (fadd (fadd d (fmul mo (Fin 30))) (fmul y (Fin 365)))
       (fadd (fadd se (fmul mi (Fin 60))) (fmul h (Fin 3600)))"
  using assms by (simp add: parse_duration_def bind_def Let_def)

lemma match_P:
  "map_option dgroups (re_match RE_ISO_8601_DURATION ''P'') =
     Some [None, None, None, None, None, None, None]"
  by code_simp

lemma fzero: "fadd (fadd (Fin 0) (fmul (Fin 0) (Fin a))) (fmul (Fin 0) (Fin b)) = Fin 0"
  by (simp add: fadd_def fmul_def round_double_def)

lemma parse_duration_P: "parse_duration (Str ''P'') = Inr ZERO"
proof -
  from match_P obtain m where m: "re_match RE_ISO_8601_DURATION ''P'' = Some m"
    and g: "dgroups m = [None, None, None, None, None, None, None]"
    by (auto simp: map_option_case split: option.splits)
  have z: "float_or0 None = Inr (Fin 0)" by (simp add: float_or0_def)
  have "parse_duration (Str ''P'') = timedelta_of_floats (Fin 0) (Fin 0)"
    using g by (subst parse_duration_Str[OF m, of "Fin 0" "Fin 0" "Fin 0" "Fin 0" "Fin 0" "Fin 0"])
      (simp_all add: dgroups_eq z fzero)
  also have "\<dots> = Inr ZERO"
    using timedelta_of_floats_nat[of 0 0] by (simp add: microseconds_to_delta_def ZERO_def)
  finally show ?thesis .
qed

lemma nomatch_duration: "re_match RE_ISO_8601_DURATION ''not-a-date'' = None"
  by code_simp

lemma nomatch_long: "re_match RE_ISO_8601_DATETIME_LONG ''not-a-date'' = None"
  by code_simp

lemma nomatch_short: "re_match RE_ISO_8601_DATETIME_SHORT ''not-a-date'' = None"
  by code_simp

lemma nomatch_long_P: "re_match RE_ISO_8601_DATETIME_LONG ''P'' = None"
  by code_simp

lemma nomatch_short_P: "re_match RE_ISO_8601_DATETIME_SHORT ''P'' = None"
  by code_simp

section \<open>Malformed inputs (claim C2)\<close>

text \<open>
  Claim C2: the malformed inputs \<^verbatim>\<open>"not-a-date"\<close> and \<^verbatim>\<open>"P"\<close> raise a malformed-input
  error in both \<^verbatim>\<open>parse_datetime\<close> and \<^verbatim>\<open>parse_duration\<close>. The code does so in three
  of the four cases. Every part of the duration pattern after the letter P is optional,
  so the pattern matches \<^verbatim>\<open>"P"\<close> with no group set, each component defaults to 0 and
  \<^verbatim>\<open>parse_duration("P")\<close> returns the zero-length \<^verbatim>\<open>timedelta\<close> instead of raising.
\<close>

theorem malformed_inputs:
  "parse_datetime (Str ''not-a-date'') None = Inl ValueError \<and>
   parse_datetime (Str ''P'') None = Inl ValueError \<and>
   parse_duration (Str ''not-a-date'') = Inl ValueError \<and>
   parse_duration (Str ''P'') = Inr \<lparr>days = 0, seconds = 0, microseconds = 0\<rparr>"
  using parse_duration_P
  by (simp add: parse_datetime_def read_datetime_def match_datetime_def bind_def
      nomatch_long nomatch_short nomatch_long_P nomatch_short_P nomatch_duration
      parse_duration_def ZERO_def)

section \<open>Durations of whole-number components\<close>

lemma pow2_53: "(2::nat) ^ 53 = 9007199254740992"
  by simp

lemma float_or0_component:
  assumes "whole g" and "component g < 2 ^ 53"
  shows "float_or0 g = Inr (Fin (of_nat (component g)))"
proof (cases g)
  case None
  then show ?thesis by (simp add: float_or0_def component_def)
next
  case (Some ds)
  with assms have "all_digits ds" and "nat_of_digits ds < 2 ^ 53"
    by (simp_all add: whole_def component_def)
  then have "float_or0 (Some ds) = Inr (Fin (of_nat (nat_of_digits ds)))"
    by (rule float_or0_digits)
  with Some show ?thesis by (simp add: component_def)
qed

lemma weighted_sum:
  assumes "a + b * k + c * l < 2 ^ 53"
  shows "fadd (fadd (Fin (of_nat a)) (fmul (Fin (of_nat b)) (Fin (of_nat k))))
           (fmul (Fin (of_nat c)) (Fin (of_nat l))) = Fin (of_nat (a + b * k + c * l))"
proof -
  have 1: "fmul (Fin (of_nat b)) (Fin (of_nat k)) = Fin (of_nat (b * k))"
    using assms by (intro fmul_nat) linarith
  have 2: "fmul (Fin (of_nat c)) (Fin (of_nat l)) = Fin (of_nat (c * l))"
    using assms by (intro fmul_nat) linarith
  have 3: "fadd (Fin (of_nat a)) (Fin (of_nat (b * k))) = Fin (of_nat (a + b * k))"
    using assms by (intro fadd_nat) linarith
  have 4: "fadd (Fin (of_nat (a + b * k))) (Fin (of_nat (c * l))) = Fin (of_nat (a + b * k + c * l))"
    using assms by (intro fadd_nat) linarith
  show ?thesis by (simp only: 1 2 3 4)
qed

lemma microseconds_to_delta_whole:
  assumes "0 \<le> a" and "0 \<le> b" and "a + b div 86400 \<le> 999999999"
  shows "microseconds_to_delta (b * 1000000 + a * 86400000000) =
     Inr \<lparr>days = a + b div 86400, seconds = b mod 86400, microseconds = 0\<rparr>"
proof -
  have e: "b * 1000000 + a * 86400000000 = (b + a * 86400) * 1000000" by simp
  have d: "(b + a * 86400) div 86400 = a + b div 86400" by simp
  have m: "(b + a * 86400) mod 86400 = b mod 86400" by simp
  have n: "0 \<le> a + b div 86400" using assms(1,2) by (simp add: pos_imp_zdiv_nonneg_iff)
  show ?thesis
    unfolding e microseconds_to_delta_def using assms(3) n by (simp add: Let_def d m)
qed

lemma parse_duration_whole_us:
  assumes m: "re_match RE_ISO_8601_DURATION s = Some m"
    and g: "dgroups m = [sg, y, mo, d, h, mi, se]"
    and sg: "sg \<noteq> Some ''-''"
    and w: "whole y" "whole mo" "whole d" "whole h" "whole mi" "whole se"
    and D: "component d + component mo * 30 + component y * 365 < 2 ^ 53"
    and S: "component se + component mi * 60 + component h * 3600 < 2 ^ 53"
  shows "parse_duration (Str s) =
     microseconds_to_delta
       (int (component se + component mi * 60 + component h * 3600) * 1000000 +
        int (component d + component mo * 30 + component y * 365) * 86400000000)"
proof -
  have gs: "m g_sign = sg" "m g_years = y" "m g_months = mo" "m g_days = d"
    "m g_hours = h" "m g_minutes = mi" "m g_seconds = se"
    using g by (simp_all add: dgroups_eq)
  have f: "float_or0 d = Inr (Fin (of_nat (component d)))"
    "float_or0 mo = Inr (Fin (of_nat (component mo)))"
    "float_or0 y = Inr (Fin (of_nat (component y)))"
    "float_or0 se = Inr (Fin (of_nat (component se)))"
    "float_or0 mi = Inr (Fin (of_nat (component mi)))"
    "float_or0 h = Inr (Fin (of_nat (component h)))"
    using w D S by (auto intro!: float_or0_component)
  have n: "Fin 30 = Fin (of_nat 30)" "Fin 365 = Fin (of_nat 365)"
    "Fin 60 = Fin (of_nat 60)" "Fin 3600 = Fin (of_nat 3600)"
    by simp_all
  have "parse_duration (Str s) =
     timedelta_of_floats
       (fadd (fadd (Fin (of_nat (component d))) (fmul (Fin (of_nat (component mo))) (Fin 30)))
          (fmul (Fin (of_nat (component y))) (Fin 365)))
       (fadd (fadd (Fin (of_nat (component se))) (fmul (Fin (of_nat (component mi))) (Fin 60)))
          (fmul (Fin (of_nat (component h))) (Fin 3600)))"
    using sg f by (intro parse_duration_Str[OF m]) (simp_all add: gs)
  also have "\<dots> = timedelta_of_floats
      (Fin (of_nat (component d + component mo * 30 + component y * 365)))
      (Fin (of_nat (component se + component mi * 60 + component h * 3600)))"
    unfolding n using weighted_sum[of "component d" "component mo" 30 "component y" 365]
      weighted_sum[of "component se" "component mi" 60 "component h" 3600] D S
    by (simp only:)
  finally show ?thesis by (simp only: timedelta_of_floats_nat)
qed

lemma parse_duration_whole:
  assumes m: "re_match RE_ISO_8601_DURATION s = Some m"
    and g: "dgroups m = [sg, y, mo, d, h, mi, se]"
    and sg: "sg \<noteq> Some ''-''"
    and w: "whole y" "whole mo" "whole d" "whole h" "whole mi" "whole se"
    and r: "365 * component y + 30 * component mo + component d
            + (3600 * component h + 60 * component mi + component se) div 86400
            \<le> 999999999"
  shows "parse_duration (Str s) =
     Inr \<lparr>days = int (365 * component y + 30 * component mo + component d
                 + (3600 * component h + 60 * component mi + component se) div 86400),
          seconds = int ((3600 * component h + 60 * component mi + component se) mod 86400),
          microseconds = 0\<rparr>"
proof -
  define D where "D = component d + component mo * 30 + component y * 365"
  define S where "S = component se + component mi * 60 + component h * 3600"
  have r': "D + S div 86400 \<le> 999999999"
    using r by (simp add: D_def S_def algebra_simps)
  have D: "D < 2 ^ 53" using r' by (simp add: pow2_53)
  have S: "S < 2 ^ 53" using r' by (simp add: pow2_53)
  have "parse_duration (Str s) = microseconds_to_delta (int S * 1000000 + int D * 86400000000)"
    unfolding D_def S_def
    using D S by (intro parse_duration_whole_us[OF m g sg w]) (simp_all only: D_def S_def)
  also have "\<dots> = Inr \<lparr>days = int D + int S div 86400, seconds = int S mod 86400,
      microseconds = 0\<rparr>"
    using r' by (intro microseconds_to_delta_whole) (simp_all add: zdiv_int[symmetric])
  finally show ?thesis
    by (simp add: D_def S_def algebra_simps zdiv_int zmod_int)
qed

lemma days_nonneg:
  assumes "valid_timedelta v" and "0 \<le> td_to_us v"
  shows "0 \<le> days v"
proof (rule ccontr)
  assume "\<not> 0 \<le> days v"
  then have "days v \<le> - 1" by simp
  then have "days v * 86400 \<le> - 86400" by simp
  moreover have "seconds v \<le> 86399" "microseconds v \<le> 999999"
    using assms(1) by (simp_all add: valid_timedelta_def)
  ultimately have "(days v * 86400 + seconds v) * 1000000 + microseconds v < 0" by simp
  with assms(2) show False by (simp add: td_to_us_def)
qed

lemma parse_duration_nonneg:
  assumes "parse_duration (Str s) = Inr v"
  shows "valid_timedelta v \<and> 0 \<le> days v"
proof -
  from assms obtain m where m: "re_match RE_ISO_8601_DURATION s = Some m"
    by (auto simp: parse_duration_def split: option.splits)
  from assms m obtain d mo y se mi h where
    f: "float_or0 (m g_days) = Inr d" "float_or0 (m g_months) = Inr mo"
       "float_or0 (m g_years) = Inr y" "float_or0 (m g_seconds) = Inr se"
       "float_or0 (m g_minutes) = Inr mi" "float_or0 (m g_hours) = Inr h"
    and t: "timedelta_of_floats (fadd (fadd d (fmul mo (Fin 30))) (fmul y (Fin 365)))
       (fadd (fadd se (fmul mi (Fin 60))) (fmul h (Fin 3600))) = Inr v"
    by (auto simp: parse_duration_def Let_def bind_Inr_iff split: if_splits)
  have nn: "nonneg_float d" "nonneg_float mo" "nonneg_float y"
    "nonneg_float se" "nonneg_float mi" "nonneg_float h"
    using f by (auto dest: float_or0_nonneg)
  have "nonneg_float (fadd (fadd d (fmul mo (Fin 30))) (fmul y (Fin 365)))"
    using nn by (intro fadd_nonneg fmul_nonneg) simp_all
  moreover have "nonneg_float (fadd (fadd se (fmul mi (Fin 60))) (fmul h (Fin 3600)))"
    using nn by (intro fadd_nonneg fmul_nonneg) simp_all
  ultimately have "valid_timedelta v \<and> 0 \<le> td_to_us v"
    using t by (intro timedelta_of_floats_nonneg)
  then show ?thesis using days_nonneg by blast
qed

lemma match_minus_P1D:
  "map_option dgroups (re_match RE_ISO_8601_DURATION ''-P1D'') =
     Some [Some ''-'', None, None, Some ''1'', None, None, None]"
  by code_simp

lemma match_P1D:
  "map_option dgroups (re_match RE_ISO_8601_DURATION ''P1D'') =
     Some [None, None, None, Some ''1'', None, None, None]"
  by code_simp

lemma match_P1DT2H30M:
  "map_option dgroups (re_match RE_ISO_8601_DURATION ''P1DT2H30M'') =
     Some [None, None, None, Some ''1'', Some ''2'', Some ''30'', None]"
  by code_simp

lemma whole_simps:
  "whole None" "whole (Some ''1'')" "whole (Some ''2'')" "whole (Some ''30'')"
  by (simp_all add: whole_def all_digits_def digits_def)

lemma component_simps:
  "component None = 0" "component (Some ''1'') = 1" "component (Some ''2'') = 2"
  "component (Some ''30'') = 30"
  by (simp_all add: component_def nat_of_digits_def digit_val_def)

lemma parse_duration_P1D:
  "parse_duration (Str ''P1D'') = Inr \<lparr>days = 1, seconds = 0, microseconds = 0\<rparr>"
proof -
  from match_P1D obtain m where m: "re_match RE_ISO_8601_DURATION ''P1D'' = Some m"
    and g: "dgroups m = [None, None, None, Some ''1'', None, None, None]"
    by (auto simp: map_option_case split: option.splits)
  show ?thesis
    using parse_duration_whole[OF m g] by (simp add: whole_simps component_simps)
qed

section \<open>The sign of a duration (claim C5)\<close>

text \<open>
  Claim C5: every duration string that begins with the sign \<^verbatim>\<open>-\<close> and matches the
  grammar raises a malformed-input error, and every value that \<^verbatim>\<open>parse_duration\<close>
  returns is non-negative. The second half fails as stated: an argument that already is
  a \<^verbatim>\<open>timedelta\<close> is returned unchanged by the first two lines of the function, negative
  or not.
\<close>

theorem parse_duration_passes_negative:
  "parse_duration (Timedelta \<lparr>days = - 1, seconds = 0, microseconds = 0\<rparr>) =
     Inr \<lparr>days = - 1, seconds = 0, microseconds = 0\<rparr> \<and>
   days \<lparr>days = - 1, seconds = 0, microseconds = 0\<rparr> < 0"
  by (simp add: parse_duration_def)

text \<open>
  Claim C5 as amended: every string that begins with \<^verbatim>\<open>-\<close> raises the malformed-input
  error, whether the rest matches the grammar or not and whatever its magnitude, and
  every value that \<^verbatim>\<open>parse_duration\<close> returns for a string is a normalised
  \<^verbatim>\<open>timedelta\<close> that is not negative.
\<close>

theorem parse_duration_sign:
  "parse_duration (Str (CHR ''-'' # s)) = Inl ValueError \<and>
   (parse_duration (Str s') = Inr v \<longrightarrow> valid_timedelta v \<and> 0 \<le> days v)"
  using parse_duration_minus parse_duration_nonneg by blast

theorem parse_duration_sign_witness:
  "parse_duration (Str ''-P0D'') = Inl ValueError \<and>
   parse_duration (Str ''P1D'') = Inr \<lparr>days = 1, seconds = 0, microseconds = 0\<rparr> \<and>
   valid_timedelta \<lparr>days = 1, seconds = 0, microseconds = 0\<rparr> \<and>
   0 \<le> days \<lparr>days = 1, seconds = 0, microseconds = 0\<rparr>"
  using parse_duration_sign[of "''P0D''" "''P1D''" "\<lparr>days = 1, seconds = 0, microseconds = 0\<rparr>"]
    parse_duration_P1D
  by simp

section \<open>The error of one rounding\<close>

lemma round_half_even_err: "\<bar>of_int (round_half_even y) - y\<bar> \<le> 1 / 2"
proof -
  have "of_int \<lfloor>y\<rfloor> \<le> y" "y < of_int \<lfloor>y\<rfloor> + 1" by linarith+
  then show ?thesis
    by (auto simp: round_half_even_def Let_def abs_le_iff)
qed

lemma round_half_even_near:
  assumes "\<bar>y - of_int n\<bar> < 1 / 2"
  shows "round_half_even y = n"
proof -
  have le: "of_int n - 1 / 2 < y" "y < of_int n + 1 / 2" using assms by linarith+
  have "\<lfloor>y\<rfloor> = n \<or> \<lfloor>y\<rfloor> = n - 1"
  proof -
    have "of_int (n - 1) \<le> y" using le by simp
    then have 1: "n - 1 \<le> \<lfloor>y\<rfloor>" by (simp only: le_floor_iff)
    have "y < of_int (n + 1)" using le by simp
    then have "\<lfloor>y\<rfloor> < n + 1" by (simp only: floor_less_iff)
    with 1 show ?thesis by linarith
  qed
  then show ?thesis
  proof
    assume f: "\<lfloor>y\<rfloor> = n"
    then have "y - of_int n < 1 / 2" using le by simp
    then show ?thesis by (simp add: round_half_even_def Let_def f)
  next
    assume f: "\<lfloor>y\<rfloor> = n - 1"
    then have "1 / 2 < y - of_int (n - 1)" using le by simp
    then show ?thesis by (simp add: round_half_even_def Let_def f)
  qed
qed

lemma pow2_diff: "pow2 (e - int k) = pow2 e / 2 ^ k"
  by (simp add: pow2_powi power_int_diff)

lemma round_double_err:
  assumes lo: "1 / 2 ^ 30 \<le> x" and hi: "x \<le> 2 ^ 30"
  shows "\<exists>r. round_double x = Fin r \<and> \<bar>r - x\<bar> \<le> x / 2 ^ 53"
proof -
  have "(0::rat) < 1 / 2 ^ 30" by simp
  with lo have x0: "0 < x" by linarith
  define e where "e = max (ilog2 x) (- 1022)"
  define u where "u = pow2 (e - 52)"
  define r where "r = rat_of_int (round_half_even (x / u)) * u"
  have u0: "0 < u" by (simp add: u_def pow2_pos)
  have e_le: "pow2 e \<le> x"
  proof (cases "- 1022 \<le> ilog2 x")
    case True
    then have "e = ilog2 x" by (simp add: e_def)
    then show ?thesis using ilog2_lower[of x] x0 by simp
  next
    case False
    then have "e = - 1022" by (simp add: e_def)
    then have "pow2 e \<le> pow2 (- 30)" by (simp add: pow2_mono)
    also have "pow2 (- 30) = 1 / 2 ^ 30" by (simp add: pow2_def)
    finally show ?thesis using lo by simp
  qed
  have uu: "u = pow2 e / 2 ^ 52" using pow2_diff[of e 52] by (simp add: u_def)
  have "\<bar>r - x\<bar> = \<bar>rat_of_int (round_half_even (x / u)) - x / u\<bar> * u"
  proof -
    have "r - x = (rat_of_int (round_half_even (x / u)) - x / u) * u"
      using u0 by (simp add: r_def field_simps)
    then show ?thesis using u0 by (simp add: abs_mult)
  qed
  also have "\<dots> \<le> 1 / 2 * u"
    using round_half_even_err[of "x / u"] u0 by (intro mult_right_mono) simp_all
  also have "\<dots> = pow2 e / 2 ^ 53" by (simp add: uu)
  also have "\<dots> \<le> x / 2 ^ 53" using e_le by (simp add: divide_right_mono)
  finally have err: "\<bar>r - x\<bar> \<le> x / 2 ^ 53" .
  have "x / 2 ^ 53 \<le> x" using x0 by (simp add: field_simps)
  with err have "\<bar>r - x\<bar> \<le> x" by (rule order_trans)
  then have "\<bar>r\<bar> \<le> 2 * x" by linarith
  also have "\<dots> \<le> 2 ^ 31" using hi by simp
  also have "(2::rat) ^ 31 < pow2 1024"
  proof -
    have "(2::rat) ^ 31 = pow2 31" by (simp add: pow2_def)
    also have "\<dots> \<le> pow2 1023" by (rule pow2_mono) simp
    also have "\<dots> < pow2 1024" by (simp add: pow2_powi)
    finally show ?thesis .
  qed
  finally have nb: "\<not> pow2 1024 \<le> \<bar>r\<bar>" by simp
  have "round_double x = Fin r"
    using x0 nb by (simp add: round_double_def Let_def e_def[symmetric] u_def[symmetric] r_def[symmetric])
  with err show ?thesis by blast
qed


section \<open>The seconds of a duration with six decimals\<close>

lemma abs_le_D: "\<bar>x - y\<bar> \<le> e \<Longrightarrow> y - e \<le> x \<and> x \<le> y + (e::rat)"
  by linarith

lemma seconds_value:
  assumes sec: "0 \<le> sec" "sec \<le> 59" and us: "1 \<le> us" "us \<le> 999999"
  shows "\<exists>c. fadd (Fin (of_int sec)) (fmul (round_double (1 / 1000000)) (Fin (of_int us)))
           = Fin c \<and> 0 \<le> c \<and>
         \<bar>c * 1000000 - of_int (sec * 1000000 + us)\<bar> < 1 / 2"
proof -
  define U :: rat where "U = of_int us"
  define S :: rat where "S = of_int sec"
  define eps :: rat where "eps = 1 / 9007199254740992"
  have p53: "(2::rat) ^ 53 = 9007199254740992" by simp
  have p30: "(2::rat) ^ 30 = 1073741824" by simp
  have U: "1 \<le> U" "U \<le> 999999" using us by (simp_all add: U_def)
  have S: "0 \<le> S" "S \<le> 59" using sec by (simp_all add: S_def)
  obtain a where a: "round_double (1 / 1000000) = Fin a"
    and ae: "\<bar>a - 1 / 1000000\<bar> \<le> 1 / 1000000 / 2 ^ 53"
    using round_double_err[of "1 / 1000000"] by auto
  define X where "X = a * U"
  have d: "\<bar>X - U / 1000000\<bar> \<le> eps"
  proof -
    have "X - U / 1000000 = U * (a - 1 / 1000000)" by (simp add: X_def algebra_simps)
    then have "\<bar>X - U / 1000000\<bar> = U * \<bar>a - 1 / 1000000\<bar>"
      using U by (simp add: abs_mult)
    also have "\<dots> \<le> 1000000 * (1 / 1000000 / 2 ^ 53)"
      using U ae by (intro mult_mono) simp_all
    finally show ?thesis by (simp add: eps_def)
  qed
  have Xb: "U / 1000000 - eps \<le> X" "X \<le> U / 1000000 + eps"
    using abs_le_D[OF d] by simp_all
  have x2lo: "1 / 2 ^ 30 \<le> X" and x2hi: "X \<le> 2"
    unfolding p30 using Xb U by (simp_all add: eps_def)
  obtain b where b: "round_double X = Fin b"
    and be: "\<bar>b - X\<bar> \<le> X / 2 ^ 53"
    using round_double_err[of X] x2lo x2hi by auto
  have "X / 2 ^ 53 \<le> 2 * eps" using x2hi by (simp add: eps_def)
  with be have be': "\<bar>b - X\<bar> \<le> 2 * eps" by linarith
  have bb: "X - 2 * eps \<le> b" "b \<le> X + 2 * eps"
    using abs_le_D[OF be'] by simp_all
  have x3lo: "1 / 2 ^ 30 \<le> S + b" and x3hi: "S + b \<le> 62"
    unfolding p30 using bb Xb U S by (simp_all add: eps_def)
  obtain c where c: "round_double (S + b) = Fin c"
    and ce: "\<bar>c - (S + b)\<bar> \<le> (S + b) / 2 ^ 53"
    using round_double_err[of "S + b"] x3lo x3hi by auto
  have "(S + b) / 2 ^ 53 \<le> 62 * eps" using x3hi by (simp add: eps_def)
  with ce have ce': "\<bar>c - (S + b)\<bar> \<le> 62 * eps" by linarith
  have cb: "S + b - 62 * eps \<le> c" "c \<le> S + b + 62 * eps"
    using abs_le_D[OF ce'] by simp_all
  have tot: "\<bar>c - (S + U / 1000000)\<bar> \<le> 65 * eps"
    using cb bb Xb by (simp add: abs_le_iff)
  have "\<bar>c * 1000000 - (S * 1000000 + U)\<bar> = 1000000 * \<bar>c - (S + U / 1000000)\<bar>"
  proof -
    have "c * 1000000 - (S * 1000000 + U) = 1000000 * (c - (S + U / 1000000))"
      by (simp add: algebra_simps)
    then have "\<bar>c * 1000000 - (S * 1000000 + U)\<bar> = \<bar>1000000 * (c - (S + U / 1000000))\<bar>"
      by (rule arg_cong)
    also have "\<dots> = \<bar>1000000\<bar> * \<bar>c - (S + U / 1000000)\<bar>" by (rule abs_mult)
    finally show ?thesis by simp
  qed
  also have "\<dots> \<le> 1000000 * (65 * eps)"
    using tot by (intro mult_left_mono) simp_all
  also have "\<dots> < 1 / 2" by (simp add: eps_def)
  finally have near: "\<bar>c * 1000000 - of_int (sec * 1000000 + us)\<bar> < 1 / 2"
    by (simp add: S_def U_def)
  have c0: "0 \<le> c" using cb(1) x3lo bb Xb U S unfolding p30 by (simp add: eps_def)
  have "fadd (Fin (of_int sec)) (fmul (round_double (1 / 1000000)) (Fin (of_int us))) = Fin c"
    by (simp add: a fmul_def fadd_def b c U_def[symmetric] S_def[symmetric] X_def[symmetric])
  with c0 near show ?thesis by blast
qed

section \<open>The text of encode_duration\<close>

lemma fmt_seconds:
  assumes "0 \<le> sec" "sec \<le> 59" "1 \<le> us" "us \<le> 999999"
  shows "fmt_6f (fadd (Fin (of_int sec)) (fmul (round_double (1 / 1000000)) (Fin (of_int us))))
     = dec (nat sec) @ ''.'' @ pad6 (dec (nat us))"
proof -
  from seconds_value[OF assms] obtain c where
    c: "fadd (Fin (of_int sec)) (fmul (round_double (1 / 1000000)) (Fin (of_int us))) = Fin c"
    and c0: "0 \<le> c"
    and near: "\<bar>c * 1000000 - of_int (sec * 1000000 + us)\<bar> < 1 / 2"
    by blast
  have r: "round_half_even (c * 1000000) = sec * 1000000 + us"
    using near by (rule round_half_even_near)
  have n: "nat (sec * 1000000 + us) = nat sec * 1000000 + nat us"
    using assms by (simp add: nat_add_distrib nat_mult_distrib)
  have lt: "nat us < 1000000" using assms by simp
  have dm: "(nat sec * 1000000 + nat us) div 1000000 = nat sec"
    "(nat sec * 1000000 + nat us) mod 1000000 = nat us"
    using lt by simp_all
  have "fmt_6f (Fin c) = dec (nat sec) @ ''.'' @ pad6 (dec (nat us))"
    using c0 unfolding fmt_6f_def
    by (simp add: Let_def r n dm mod_less[OF lt] del: of_int_add of_int_mult)
  then show ?thesis by (simp only: c)
qed

lemma div_60_60: "(a::int) div 60 div 60 = a div 3600"
  by (simp add: div_mult2_eq[symmetric])

lemma encode_items_text:
  assumes "valid_timedelta t" and "0 \<le> days t"
  shows "encode_items t = spec_text t"
proof -
  have s: "0 \<le> seconds t" "seconds t < 86400" "0 \<le> microseconds t"
    "microseconds t < 1000000"
    using assms(1) by (simp_all add: valid_timedelta_def)
  define H where "H = seconds t div 3600"
  define M where "M = seconds t div 60 mod 60"
  define Sc where "Sc = seconds t mod 60"
  have sec: "0 \<le> Sc" "Sc \<le> 59" by (simp_all add: Sc_def)
  have f: "microseconds t \<noteq> 0 \<Longrightarrow>
      fmt_6f (fadd (Fin (of_int Sc))
        (fmul (round_double (1 / 1000000)) (Fin (of_int (microseconds t)))))
      = dec (nat Sc) @ ''.'' @ pad6 (dec (nat (microseconds t)))"
    using s sec by (intro fmt_seconds) simp_all
  have h: "0 \<le> H" "0 \<le> M"
    using s by (simp_all add: H_def M_def pos_imp_zdiv_nonneg_iff)
  have e: "py_str_int (days t) = dec (nat (days t))"
    "py_str_int H = dec (nat H)" "py_str_int M = dec (nat M)" "py_str_int Sc = dec (nat Sc)"
    using assms(2) h sec by (simp_all add: py_str_int_def)
  show ?thesis
  proof (cases "microseconds t = 0")
    case True
    then show ?thesis
      unfolding encode_items_def spec_text_def Let_def div_60_60
        H_def[symmetric] M_def[symmetric] Sc_def[symmetric]
      by (simp add: e)
  next
    case False
    then show ?thesis
      unfolding encode_items_def spec_text_def Let_def div_60_60
        H_def[symmetric] M_def[symmetric] Sc_def[symmetric] f[OF False]
      by (simp add: e)
  qed
qed

lemma timedelta_neg_valid:
  assumes "valid_timedelta v" and "days v < 0"
  shows "\<exists>t. timedelta_neg v = Inr t \<and> valid_timedelta t \<and> 0 \<le> days t \<and>
           td_to_us t = - td_to_us v"
proof -
  have s: "0 \<le> seconds v" "seconds v < 86400" "0 \<le> microseconds v"
    "microseconds v < 1000000" "- 999999999 \<le> days v"
    using assms(1) by (simp_all add: valid_timedelta_def)
  define x where "x = - td_to_us v"
  have xlo: "0 < x"
    using assms(2) s by (simp add: x_def td_to_us_def)
  have xhi: "x \<le> 999999999 * 86400000000"
    using s by (simp add: x_def td_to_us_def)
  define d where "d = x div 1000000 div 86400"
  have d: "d = x div 86400000000" by (simp add: d_def div_mult2_eq[symmetric])
  have "0 \<le> d" using xlo by (simp add: d pos_imp_zdiv_nonneg_iff)
  moreover have "d \<le> 999999999"
  proof -
    have "x div 86400000000 \<le> (999999999 * 86400000000) div 86400000000"
      using xhi by (intro zdiv_mono1) simp_all
    then show ?thesis by (simp add: d)
  qed
  ultimately have ok: "\<not> (d < - 999999999 \<or> 999999999 < d)" by simp
  define t where "t = \<lparr>days = d, seconds = x div 1000000 mod 86400,
    microseconds = x mod 1000000\<rparr>"
  have t: "microseconds_to_delta x = Inr t"
    using ok unfolding microseconds_to_delta_def Let_def d_def[symmetric] t_def by simp
  have dt: "days t = d" by (simp add: t_def)
  have "timedelta_neg v = Inr t" by (simp add: timedelta_neg_def x_def[symmetric] t)
  moreover have "valid_timedelta t \<and> td_to_us t = x"
    using t by (rule microseconds_to_delta_valid)
  ultimately show ?thesis using \<open>0 \<le> d\<close> dt by (auto simp: x_def)
qed

section \<open>Decimal digits\<close>

lemma digit_char_values:
  "digit_char 0 = CHR ''0''" "digit_char 1 = CHR ''1''" "digit_char 2 = CHR ''2''"
  "digit_char 3 = CHR ''3''" "digit_char 4 = CHR ''4''" "digit_char 5 = CHR ''5''"
  "digit_char 6 = CHR ''6''" "digit_char 7 = CHR ''7''" "digit_char 8 = CHR ''8''"
  "digit_char 9 = CHR ''9''"
  by code_simp+

lemma digit_chars_digits: "list_all (\<lambda>n. digit_char n \<in> set digits) [0..<10]"
  by code_simp

lemma digit_char_digits:
  assumes "n < 10"
  shows "digit_char n \<in> set digits"
proof -
  have "n \<in> set [0..<10]" using assms by simp
  with digit_chars_digits show ?thesis by (simp only: list_all_iff)
qed

lemma dec_digits: "set (dec n) \<subseteq> set digits"
proof (induction n rule: dec.induct)
  case (1 n)
  show ?case
  proof (cases "n < 10")
    case True
    then show ?thesis by (subst dec.simps) (simp add: digit_char_digits)
  next
    case False
    have "n mod 10 < 10" by simp
    then have "digit_char (n mod 10) \<in> set digits" by (rule digit_char_digits)
    with False 1 show ?thesis by (subst dec.simps) simp
  qed
qed

lemma dec_nonempty: "dec n \<noteq> []"
  by (subst dec.simps) simp

lemma all_digits_dec: "all_digits (dec n)"
  using dec_digits[of n] dec_nonempty[of n] by (auto simp: all_digits_def list_all_iff)

lemma length_dec: "n < 10 ^ k \<Longrightarrow> 0 < k \<Longrightarrow> length (dec n) \<le> k"
proof (induction n arbitrary: k rule: dec.induct)
  case (1 n)
  show ?case
  proof (cases "n < 10")
    case True
    then show ?thesis using 1(3) by (subst dec.simps) simp
  next
    case False
    obtain j where k: "k = Suc j" using 1(3) by (cases k) auto
    have j: "0 < j"
    proof (rule ccontr)
      assume "\<not> 0 < j"
      with k 1(2) False show False by simp
    qed
    have "n div 10 < 10 ^ j" using 1(2) k by (simp add: less_mult_imp_div_less mult.commute)
    then have "length (dec (n div 10)) \<le> j" using 1(1)[OF False] j by simp
    then show ?thesis using False k by (subst dec.simps) simp
  qed
qed

lemma length_pad6: "length s \<le> 6 \<Longrightarrow> length (pad6 s) = 6"
  by (simp add: pad6_def)

lemma set_pad6: "set (pad6 s) \<subseteq> insert CHR ''0'' (set s)"
  by (auto simp: pad6_def)

lemma zero_digit: "CHR ''0'' \<in> set digits"
  by (simp add: digits_def)

lemma pad6_dec:
  assumes "n < 1000000"
  shows "length (pad6 (dec n)) = 6 \<and> set (pad6 (dec n)) \<subseteq> set digits"
proof -
  have "n < 10 ^ 6" using assms by simp
  then have "length (dec n) \<le> 6" by (rule length_dec) simp
  then have "length (pad6 (dec n)) = 6" by (rule length_pad6)
  moreover have "set (pad6 (dec n)) \<subseteq> set digits"
    using set_pad6[of "dec n"] dec_digits[of n] zero_digit by auto
  ultimately show ?thesis by simp
qed

section \<open>Ways to match\<close>

lemma m_Chr: "(t, c) \<in> set (rmatch (Chr a) (a # t) c)"
  by simp

lemma m_Seq:
  "(t1, c1) \<in> set (rmatch a s c) \<Longrightarrow> (t2, c2) \<in> set (rmatch b t1 c1)
     \<Longrightarrow> (t2, c2) \<in> set (rmatch (Seq a b) s c)"
  by force

lemma m_Opt_skip: "(s, c) \<in> set (rmatch (Opt a) s c)"
  by simp

lemma m_Opt_take: "(t, c') \<in> set (rmatch a s c) \<Longrightarrow> (t, c') \<in> set (rmatch (Opt a) s c)"
  by simp

lemma takeWhile_prefix_length:
  assumes "\<forall>x\<in>set ds. P x"
  shows "length ds \<le> length (takeWhile P (ds @ t))"
  using assms by (simp add: takeWhile_append2)

lemma m_Rep:
  assumes "set ds \<subseteq> set cs" and "m \<le> length ds"
    and "case n of None \<Rightarrow> True | Some k \<Rightarrow> length ds \<le> k"
  shows "(t, c) \<in> set (rmatch (Rep cs m n) (ds @ t) c)"
proof -
  have a: "length ds \<le> length (takeWhile (\<lambda>x. x \<in> set cs) (ds @ t))"
    using assms(1) by (intro takeWhile_prefix_length) auto
  have "length ds \<in> set (rep_counts cs m n (ds @ t))"
    using a assms(2,3) by (auto simp: rep_counts_def Let_def split: option.splits)
  then have "(drop (length ds) (ds @ t), c) \<in> set (rmatch (Rep cs m n) (ds @ t) c)"
    by (simp only: rmatch.simps set_map) (rule imageI)
  then show ?thesis by simp
qed

lemma m_digits: "(t, c) \<in> set (rmatch (Rep digits 1 None) (dec n @ t) c)"
  using dec_digits[of n] dec_nonempty[of n]
  by (intro m_Rep) (simp_all add: Suc_le_eq)

lemma m_num_letter:
  "(t, c) \<in> set (rmatch (Seq (Rep digits 1 None) (Chr x)) (dec n @ x # t) c)"
  by (rule m_Seq[OF m_digits m_Chr])

lemma m_opt_num_letter:
  "(t, c) \<in> set (rmatch (Opt (Seq (Rep digits 1 None) (Chr x)))
      ((if b then dec n @ [x] else []) @ t) c)"
proof (cases b)
  case True
  have "(t, c) \<in> set (rmatch (Opt (Seq (Rep digits 1 None) (Chr x))) (dec n @ x # t) c)"
    by (rule m_Opt_take[OF m_num_letter])
  with True show ?thesis by (simp del: rmatch.simps)
next
  case False
  have "(t, c) \<in> set (rmatch (Opt (Seq (Rep digits 1 None) (Chr x))) t c)"
    by (rule m_Opt_skip)
  with False show ?thesis by (simp del: rmatch.simps)
qed

section \<open>The text of a duration matches the grammar of the specification\<close>

lemma letters_not_digits:
  "CHR ''Y'' \<notin> set digits" "CHR ''M'' \<notin> set digits" "CHR ''T'' \<notin> set digits"
  by (simp_all add: digits_def)

lemma letter_notin_dec:
  "CHR ''Y'' \<notin> set (dec n)" "CHR ''M'' \<notin> set (dec n)" "CHR ''T'' \<notin> set (dec n)"
  using dec_digits[of n] letters_not_digits by blast+

lemma Y_notin_pad6: "CHR ''Y'' \<notin> set (pad6 (dec n))"
  using set_pad6[of "dec n"] letter_notin_dec(1)[of n] by auto

lemma m_six:
  assumes "u < 1000000"
  shows "(t, c) \<in> set (rmatch (Rep digits 6 (Some 6)) (pad6 (dec u) @ t) c)"
  using pad6_dec[OF assms] by (intro m_Rep) simp_all

lemma m_seconds:
  assumes "u < 1000000"
  shows "([], c) \<in> set (rmatch
     (Opt (Seq (Rep digits 1 None)
        (Seq (Opt (Seq (Chr CHR ''.'') (Rep digits 6 (Some 6)))) (Chr CHR ''S''))))
     (if b1 then dec s @ CHR ''.'' # pad6 (dec u) @ ''S''
      else if b2 then dec s @ ''S'' else []) c)"
proof (cases b1)
  case True
  have "(''S'', c) \<in> set (rmatch (Seq (Chr CHR ''.'') (Rep digits 6 (Some 6)))
      (CHR ''.'' # pad6 (dec u) @ ''S'') c)"
    by (rule m_Seq[OF m_Chr m_six[OF assms]])
  then have "(''S'', c) \<in> set (rmatch (Opt (Seq (Chr CHR ''.'') (Rep digits 6 (Some 6))))
      (CHR ''.'' # pad6 (dec u) @ ''S'') c)"
    by (rule m_Opt_take)
  then have "([], c) \<in> set (rmatch
      (Seq (Opt (Seq (Chr CHR ''.'') (Rep digits 6 (Some 6)))) (Chr CHR ''S''))
      (CHR ''.'' # pad6 (dec u) @ ''S'') c)"
    by (rule m_Seq) (rule m_Chr)
  then have "([], c) \<in> set (rmatch (Seq (Rep digits 1 None)
        (Seq (Opt (Seq (Chr CHR ''.'') (Rep digits 6 (Some 6)))) (Chr CHR ''S'')))
      (dec s @ CHR ''.'' # pad6 (dec u) @ ''S'') c)"
    by (rule m_Seq[OF m_digits])
  then show ?thesis using True by (simp del: rmatch.simps add: m_Opt_take)
next
  case False
  show ?thesis
  proof (cases b2)
    case True
    have "(''S'', c) \<in> set (rmatch (Opt (Seq (Chr CHR ''.'') (Rep digits 6 (Some 6)))) ''S'' c)"
      by (rule m_Opt_skip)
    then have "([], c) \<in> set (rmatch
        (Seq (Opt (Seq (Chr CHR ''.'') (Rep digits 6 (Some 6)))) (Chr CHR ''S'')) ''S'' c)"
      by (rule m_Seq) (rule m_Chr)
    then have "([], c) \<in> set (rmatch (Seq (Rep digits 1 None)
          (Seq (Opt (Seq (Chr CHR ''.'') (Rep digits 6 (Some 6)))) (Chr CHR ''S'')))
        (dec s @ ''S'') c)"
      by (rule m_Seq[OF m_digits])
    then show ?thesis using True False by (simp del: rmatch.simps add: m_Opt_take)
  next
    case b2: False
    show ?thesis using False b2 by (simp del: rmatch.simps add: m_Opt_skip)
  qed
qed

lemma m_time:
  assumes "u < 1000000"
  shows "([], c) \<in> set (rmatch
     (Opt (Seq (Chr CHR ''T'')
        (Seq (Opt (Seq (Rep digits 1 None) (Chr CHR ''H'')))
        (Seq (Opt (Seq (Rep digits 1 None) (Chr CHR ''M'')))
          (Opt (Seq (Rep digits 1 None)
            (Seq (Opt (Seq (Chr CHR ''.'') (Rep digits 6 (Some 6)))) (Chr CHR ''S''))))))))
     (if b then CHR ''T'' # (if bh then dec h @ ''H'' else []) @
        (if bm then dec m @ ''M'' else []) @
        (if b1 then dec s @ CHR ''.'' # pad6 (dec u) @ ''S''
         else if b2 then dec s @ ''S'' else [])
      else []) c)"
proof (cases b)
  case False
  then show ?thesis by (simp del: rmatch.simps add: m_Opt_skip)
next
  case True
  let ?S = "if b1 then dec s @ CHR ''.'' # pad6 (dec u) @ ''S''
         else if b2 then dec s @ ''S'' else []"
  let ?M = "(if bm then dec m @ ''M'' else []) @ ?S"
  let ?H = "(if bh then dec h @ ''H'' else []) @ ?M"
  note s = m_seconds[OF assms, of c b1 s b2]
  have m: "([], c) \<in> set (rmatch
        (Seq (Opt (Seq (Rep digits 1 None) (Chr CHR ''M'')))
          (Opt (Seq (Rep digits 1 None)
            (Seq (Opt (Seq (Chr CHR ''.'') (Rep digits 6 (Some 6)))) (Chr CHR ''S''))))) ?M c)"
    by (rule m_Seq[OF m_opt_num_letter s])
  have h: "([], c) \<in> set (rmatch
        (Seq (Opt (Seq (Rep digits 1 None) (Chr CHR ''H'')))
        (Seq (Opt (Seq (Rep digits 1 None) (Chr CHR ''M'')))
          (Opt (Seq (Rep digits 1 None)
            (Seq (Opt (Seq (Chr CHR ''.'') (Rep digits 6 (Some 6)))) (Chr CHR ''S'')))))) ?H c)"
    by (rule m_Seq[OF m_opt_num_letter m])
  have "([], c) \<in> set (rmatch
     (Seq (Chr CHR ''T'')
        (Seq (Opt (Seq (Rep digits 1 None) (Chr CHR ''H'')))
        (Seq (Opt (Seq (Rep digits 1 None) (Chr CHR ''M'')))
          (Opt (Seq (Rep digits 1 None)
            (Seq (Opt (Seq (Chr CHR ''.'') (Rep digits 6 (Some 6)))) (Chr CHR ''S'')))))))
     (CHR ''T'' # ?H) c)"
    by (rule m_Seq[OF m_Chr h])
  then show ?thesis using True by (simp del: rmatch.simps add: m_Opt_take)
qed

lemma full_match_PT0S: "full_match spec_duration_grammar ''PT0S''"
  by code_simp

lemma full_matchI: "([], c) \<in> set (rmatch r s (\<lambda>_. None)) \<Longrightarrow> full_match r s"
  by (force simp: full_match_def list_ex_iff)

lemma spec_text_matches:
  assumes "valid_timedelta t" and "0 \<le> days t"
  shows "full_match spec_duration_grammar (spec_text t)"
proof (cases "days t = 0 \<and> seconds t = 0 \<and> microseconds t = 0")
  case True
  then have "spec_text t = ''PT0S''" by (simp add: spec_text_def)
  then show ?thesis by (simp add: full_match_PT0S)
next
  case False
  define c0 :: caps where "c0 = (\<lambda>_. None)"
  let ?b = "seconds t \<noteq> 0 \<or> microseconds t \<noteq> 0"
  let ?T = "if ?b then CHR ''T'' #
        (if seconds t div 3600 \<noteq> 0 then dec (nat (seconds t div 3600)) @ ''H'' else []) @
        (if seconds t div 60 mod 60 \<noteq> 0
         then dec (nat (seconds t div 60 mod 60)) @ ''M'' else []) @
        (if microseconds t \<noteq> 0
         then dec (nat (seconds t mod 60)) @ CHR ''.'' # pad6 (dec (nat (microseconds t))) @ ''S''
         else if seconds t mod 60 \<noteq> 0 then dec (nat (seconds t mod 60)) @ ''S''
         else [])
      else []"
  have u: "nat (microseconds t) < 1000000"
    using assms(1) unfolding valid_timedelta_def by linarith
  have st: "spec_text t =
      CHR ''P'' # (if days t \<noteq> 0 then dec (nat (days t)) @ [CHR ''D''] else []) @ ?T"
    using False by (auto simp: spec_text_def)
  note tm = m_time[OF u, of c0 ?b "seconds t div 3600 \<noteq> 0" "nat (seconds t div 3600)"
      "seconds t div 60 mod 60 \<noteq> 0" "nat (seconds t div 60 mod 60)"
      "microseconds t \<noteq> 0" "nat (seconds t mod 60)" "seconds t mod 60 \<noteq> 0"]
  have "([], c0) \<in> set (rmatch
      (Seq (Chr CHR ''P'')
        (Seq (Opt (Seq (Rep digits 1 None) (Chr CHR ''D'')))
        (Opt (Seq (Chr CHR ''T'')
        (Seq (Opt (Seq (Rep digits 1 None) (Chr CHR ''H'')))
        (Seq (Opt (Seq (Rep digits 1 None) (Chr CHR ''M'')))
          (Opt (Seq (Rep digits 1 None)
            (Seq (Opt (Seq (Chr CHR ''.'') (Rep digits 6 (Some 6)))) (Chr CHR ''S''))))))))))
      (spec_text t) c0)"
    unfolding st by (rule m_Seq[OF m_Chr m_Seq[OF m_opt_num_letter tm]])
  then have "([], c0) \<in> set (rmatch spec_duration_grammar (spec_text t) c0)"
    by (simp add: spec_duration_grammar_def del: rmatch.simps(1-4,6-8))
  then show ?thesis unfolding c0_def by (rule full_matchI)
qed

lemma negative_us:
  assumes "valid_timedelta v" and "days v < 0"
  shows "td_to_us v < 0"
proof -
  have "days v * 86400 \<le> - 86400" using assms(2) by simp
  moreover have "seconds v \<le> 86399" "microseconds v \<le> 999999"
    using assms(1) by (simp_all add: valid_timedelta_def)
  ultimately show ?thesis by (simp add: td_to_us_def)
qed

lemma encode_duration_nonneg:
  assumes "valid_timedelta v" and "0 \<le> days v"
  shows "encode_duration (Timedelta v) = Inr (spec_text v)"
  using assms encode_items_text[OF assms] by (simp add: encode_duration_def)

lemma encode_duration_neg:
  assumes "valid_timedelta v" and "days v < 0"
  shows "\<exists>t. valid_timedelta t \<and> 0 \<le> days t \<and> td_to_us t = - td_to_us v \<and>
     encode_duration (Timedelta v) = Inr (CHR ''-'' # spec_text t)"
proof -
  from timedelta_neg_valid[OF assms] obtain t where
    t: "timedelta_neg v = Inr t" "valid_timedelta t" "0 \<le> days t" "td_to_us t = - td_to_us v"
    by blast
  have "encode_duration (Timedelta v) = Inr (CHR ''-'' # encode_items t)"
    using assms(2) t(1) by (simp add: encode_duration_def bind_def)
  then show ?thesis using t encode_items_text[OF t(2,3)] by auto
qed

lemma spec_text_P: "take 1 (spec_text t) = ''P''"
  by (simp add: spec_text_def)

lemma spec_text_no_Y: "CHR ''Y'' \<notin> set (spec_text t)"
  by (simp add: spec_text_def letter_notin_dec Y_notin_pad6)

lemma spec_text_no_month:
  "CHR ''M'' \<notin> set (takeWhile (\<lambda>c. c \<noteq> CHR ''T'') (spec_text t))"
proof -
  define X where "X = CHR ''P'' # (if days t \<noteq> 0 then dec (nat (days t)) @ ''D'' else [])"
  have "\<exists>B. spec_text t = X @ B \<and> (B = [] \<or> hd B = CHR ''T'')"
    by (auto simp: spec_text_def X_def)
  then obtain B where st: "spec_text t = X @ B" and B: "B = [] \<or> hd B = CHR ''T''"
    by blast
  have noT: "\<forall>x\<in>set X. x \<noteq> CHR ''T''"
    using letter_notin_dec(3)[of "nat (days t)"] by (auto simp: X_def)
  have "takeWhile (\<lambda>c. c \<noteq> CHR ''T'') B = []"
    using B by (cases B) auto
  then have "takeWhile (\<lambda>c. c \<noteq> CHR ''T'') (spec_text t) = X"
    using noT by (simp add: st takeWhile_append2)
  moreover have "CHR ''M'' \<notin> set X"
    using letter_notin_dec(2)[of "nat (days t)"] by (auto simp: X_def)
  ultimately show ?thesis by simp
qed

lemma digit_char_Suc_0: "digit_char (Suc 0) = CHR ''1''"
  using digit_char_values(2) by simp

lemma dec_examples: "dec 0 = ''0''" "dec 1 = ''1''" "dec 5 = ''5''" "dec 500000 = ''500000''"
  by (simp_all add: dec.simps digit_char_values digit_char_Suc_0)
lemma dec_Suc_0: "dec (Suc 0) = ''1''"
  using dec_examples(2) by simp

lemma spec_text_examples:
  "spec_text \<lparr>days = 0, seconds = 0, microseconds = 0\<rparr> = ''PT0S''"
  "spec_text \<lparr>days = 0, seconds = 5, microseconds = 500000\<rparr> = ''PT5.500000S''"
  "spec_text \<lparr>days = 1, seconds = 0, microseconds = 0\<rparr> = ''P1D''"
  by (simp_all add: spec_text_def dec_examples dec_Suc_0 pad6_def)

section \<open>The encoder (claim C7)\<close>

text \<open>
  Claim C7: \<^verbatim>\<open>encode_duration\<close> of the zero-length elapsed time is exactly \<^verbatim>\<open>PT0S\<close>;
  for a value with a sub-day remainder the output has \<^verbatim>\<open>T\<close> followed by the hours if
  they are not 0, the minutes if they are not 0, and the seconds, with exactly six
  decimals when there are microseconds, as a plain integer when there are none and the
  seconds are not 0. The theorem gives the whole text: for a value that is not negative
  it is \<open>spec_text\<close> of the value, the text that section 4.5 of the specification
  prescribes, and for a negative value it is \<^verbatim>\<open>-\<close> followed by \<open>spec_text\<close> of the
  negated value. The six decimals of the seconds are the digits of the microseconds:
  the double \<^verbatim>\<open>seconds + 1e-6 * microseconds\<close> is within \<open>65 / 2^53\<close> of the exact
  value, so \<^verbatim>\<open>%.6f\<close> prints the exact value.
\<close>

theorem encode_duration_text:
  assumes "valid_timedelta v"
  shows "encode_duration (Timedelta \<lparr>days = 0, seconds = 0, microseconds = 0\<rparr>) = Inr ''PT0S'' \<and>
    (0 \<le> days v \<longrightarrow> encode_duration (Timedelta v) = Inr (spec_text v)) \<and>
    (days v < 0 \<longrightarrow> (\<exists>t. valid_timedelta t \<and> 0 \<le> days t \<and> td_to_us t = - td_to_us v \<and>
       encode_duration (Timedelta v) = Inr (CHR ''-'' # spec_text t)))"
proof -
  have "valid_timedelta \<lparr>days = 0, seconds = 0, microseconds = 0\<rparr>"
    by (simp add: valid_timedelta_def)
  then have "encode_duration (Timedelta \<lparr>days = 0, seconds = 0, microseconds = 0\<rparr>) =
      Inr (spec_text \<lparr>days = 0, seconds = 0, microseconds = 0\<rparr>)"
    by (rule encode_duration_nonneg) simp
  then show ?thesis
    using encode_duration_nonneg[OF assms] encode_duration_neg[OF assms]
    by (simp add: spec_text_examples)
qed

theorem encode_duration_text_witness:
  "valid_timedelta \<lparr>days = 0, seconds = 5, microseconds = 500000\<rparr> \<and>
   encode_duration (Timedelta \<lparr>days = 0, seconds = 0, microseconds = 0\<rparr>) = Inr ''PT0S'' \<and>
   encode_duration (Timedelta \<lparr>days = 0, seconds = 5, microseconds = 500000\<rparr>) =
     Inr ''PT5.500000S''"
proof -
  have v: "valid_timedelta \<lparr>days = 0, seconds = 5, microseconds = 500000\<rparr>"
    by (simp add: valid_timedelta_def)
  show ?thesis
    using v encode_duration_text[OF v] by (simp add: spec_text_examples)
qed

section \<open>The text of a duration (claim C3)\<close>

text \<open>
  Claim C3: for every elapsed time, negative ones included, the string that
  \<^verbatim>\<open>encode_duration\<close> returns begins with \<^verbatim>\<open>P\<close>, has no year or month designator and
  matches the grammar \<^verbatim>\<open>P(nD)?(T(nH)?(nM)?(nS(.ffffff)?)?)?\<close> or is \<^verbatim>\<open>PT0S\<close>. For a negative
  value the claim fails: the function puts \<^verbatim>\<open>-\<close> in front of the \<^verbatim>\<open>P\<close>.
\<close>

theorem encode_duration_minus_one_day:
  "encode_duration (Timedelta \<lparr>days = - 1, seconds = 0, microseconds = 0\<rparr>) = Inr ''-P1D'' \<and>
   take 1 ''-P1D'' \<noteq> ''P'' \<and> \<not> full_match spec_duration_grammar ''-P1D''"
proof -
  have n: "timedelta_neg \<lparr>days = - 1, seconds = 0, microseconds = 0\<rparr> =
      Inr \<lparr>days = 1, seconds = 0, microseconds = 0\<rparr>"
    by (simp add: timedelta_neg_def td_to_us_def microseconds_to_delta_def)
  have "valid_timedelta \<lparr>days = 1, seconds = 0, microseconds = 0\<rparr>"
    by (simp add: valid_timedelta_def)
  then have "encode_items \<lparr>days = 1, seconds = 0, microseconds = 0\<rparr> = ''P1D''"
    using encode_items_text[of "\<lparr>days = 1, seconds = 0, microseconds = 0\<rparr>"]
    by (simp add: spec_text_examples)
  then have "encode_duration (Timedelta \<lparr>days = - 1, seconds = 0, microseconds = 0\<rparr>) =
      Inr ''-P1D''"
    by (simp add: encode_duration_def n bind_def)
  moreover have "\<not> full_match spec_duration_grammar ''-P1D''" by code_simp
  ultimately show ?thesis by simp
qed

text \<open>
  Claim C3 as amended: for every elapsed time the string that \<^verbatim>\<open>encode_duration\<close>
  returns is a body, preceded by \<^verbatim>\<open>-\<close> exactly when the value is negative; the body
  begins with \<^verbatim>\<open>P\<close>, matches the grammar \<^verbatim>\<open>P(nD)?(T(nH)?(nM)?(nS(.ffffff)?)?)?\<close> (of
  which \<^verbatim>\<open>PT0S\<close> is an instance), has no \<^verbatim>\<open>Y\<close>, and has no \<^verbatim>\<open>M\<close> before the
  \<^verbatim>\<open>T\<close>, that is no month designator.
\<close>

theorem encode_duration_grammar:
  assumes "valid_timedelta v"
  shows "\<exists>body. encode_duration (Timedelta v) =
        Inr ((if days v < 0 then ''-'' else []) @ body) \<and>
      take 1 body = ''P'' \<and>
      full_match spec_duration_grammar body \<and>
      CHR ''Y'' \<notin> set body \<and>
      CHR ''M'' \<notin> set (takeWhile (\<lambda>c. c \<noteq> CHR ''T'') body)"
proof (cases "days v < 0")
  case True
  from encode_duration_neg[OF assms True] obtain t where
    t: "valid_timedelta t" "0 \<le> days t"
    "encode_duration (Timedelta v) = Inr (CHR ''-'' # spec_text t)"
    by blast
  show ?thesis
    using True t(3) spec_text_P[of t] spec_text_matches[OF t(1,2)] spec_text_no_Y[of t]
      spec_text_no_month[of t]
    by (intro exI[of _ "spec_text t"]) simp
next
  case False
  then have d: "0 \<le> days v" by simp
  show ?thesis
    using False encode_duration_nonneg[OF assms d] spec_text_P[of v]
      spec_text_matches[OF assms d] spec_text_no_Y[of v] spec_text_no_month[of v]
    by (intro exI[of _ "spec_text v"]) simp
qed

theorem encode_duration_grammar_witness:
  "valid_timedelta \<lparr>days = 1, seconds = 0, microseconds = 0\<rparr> \<and>
   (\<exists>body. encode_duration (Timedelta \<lparr>days = 1, seconds = 0, microseconds = 0\<rparr>) = Inr body \<and>
      take 1 body = ''P'' \<and>
      full_match spec_duration_grammar body \<and>
      CHR ''Y'' \<notin> set body \<and>
      CHR ''M'' \<notin> set (takeWhile (\<lambda>c. c \<noteq> CHR ''T'') body))"
proof -
  have v: "valid_timedelta \<lparr>days = 1, seconds = 0, microseconds = 0\<rparr>"
    by (simp add: valid_timedelta_def)
  show ?thesis
    using v encode_duration_grammar[OF v] by simp
qed

section \<open>The date parser (claim C9)\<close>

text \<open>
  Claim C9: \<^verbatim>\<open>parse_date\<close> returns a date-only value exactly as it is, and for every
  other input, a string or a full timestamp, the date component of what
  \<^verbatim>\<open>parse_datetime\<close> returns, an error of \<^verbatim>\<open>parse_datetime\<close> passing through
  unchanged. The last conjunct adds the remaining kind of input of the model, which
  \<^verbatim>\<open>parse_datetime\<close> rejects.
\<close>

theorem parse_date_cases:
  "parse_date (Date d) = Inr d \<and>
   parse_date (Str s) = map_sum id date_of (parse_datetime (Str s) None) \<and>
   parse_date (Datetime t) = map_sum id date_of (parse_datetime (Datetime t) None) \<and>
   parse_date (Timedelta e) = map_sum id date_of (parse_datetime (Timedelta e) None)"
proof -
  have "bind m (\<lambda>dt. Inr (date_of dt)) = map_sum id date_of m" for m :: "error + datetime"
    by (cases m) (simp_all add: bind_def)
  then show ?thesis by (simp add: parse_date_def)
qed

section \<open>Matching a number and its designator\<close>

lemma concat_map_empty: "\<forall>x\<in>set xs. f x = [] \<Longrightarrow> concat (map f xs) = []"
  by (induction xs) simp_all

lemma takeWhile_digits:
  assumes "all_digits ds" and "a \<notin> set digits"
  shows "takeWhile (\<lambda>x. x \<in> set digits) (ds @ a # r) = ds"
proof -
  have "\<forall>x\<in>set ds. x \<in> set digits" using assms(1) by (simp add: all_digits_set)
  then show ?thesis using assms(2) by (simp add: takeWhile_append2)
qed

lemma rep_counts_digits:
  assumes "all_digits ds" and "a \<notin> set digits"
  shows "rep_counts digits 1 None (ds @ a # r) = length ds # rev [1..<length ds]"
proof -
  have "ds \<noteq> []" using assms(1) by (simp add: all_digits_def)
  then have "0 < length ds" by simp
  then show ?thesis
    by (simp add: rep_counts_def Let_def takeWhile_digits[OF assms] Suc_le_eq)
qed

lemma rep_counts_none:
  assumes "s = [] \<or> hd s \<notin> set digits"
  shows "rep_counts digits 1 None s = []"
proof -
  have "takeWhile (\<lambda>x. x \<in> set digits) s = []"
    using assms by (cases s) auto
  then show ?thesis by (simp add: rep_counts_def)
qed

lemma chr_fail: "s = [] \<or> hd s \<noteq> x \<Longrightarrow> rmatch (Chr x) s c = []"
  by (cases s) auto

lemma drop_digit:
  assumes "all_digits ds" and "k < length ds"
  shows "drop k ds @ t \<noteq> [] \<and> hd (drop k ds @ t) \<in> set digits"
proof -
  have d: "drop k ds = ds ! k # drop (Suc k) ds"
    using assms(2) by (simp add: Cons_nth_drop_Suc)
  have "ds ! k \<in> set digits" using assms by (simp add: all_digits_set)
  then show ?thesis by (simp add: d)
qed

text \<open>The number of a component: each count of digits, the longest first, with the
  digits taken as the group.\<close>

lemma num_counts:
  assumes ds: "all_digits ds" and a: "a \<notin> set digits" "a \<noteq> CHR ''.''"
  shows "rmatch (num i) (ds @ a # r) c =
     map (\<lambda>k. (drop k (ds @ a # r), c(i \<mapsto> take k (ds @ a # r))))
       (length ds # rev [1..<length ds])"
proof -
  let ?s = "ds @ a # r"
  let ?frac = "Opt (Grp (Suc i) (Seq (Chr CHR ''.'') (Rep digits 1 None)))"
  let ?ks = "length ds # rev [1..<length ds]"
  have dot: "CHR ''.'' \<notin> set digits" by (rule dot_not_digit)
  have frac: "rmatch ?frac (drop k ?s) c = [(drop k ?s, c)]" if "k \<in> set ?ks" for k
  proof (cases "k < length ds")
    case True
    from drop_digit[OF ds True, of "a # r"] dot
    have "drop k ds @ a # r = [] \<or> hd (drop k ds @ a # r) \<noteq> CHR ''.''" by auto
    then have "rmatch (Chr CHR ''.'') (drop k ds @ a # r) c = []" by (rule chr_fail)
    then show ?thesis using True by (simp del: rmatch.simps(1) add: )
  next
    case False
    with that have "k = length ds" by auto
    then show ?thesis using a(2) by simp
  qed
  have "rmatch (Seq (Rep digits 1 None) ?frac) ?s c =
      concat (map (\<lambda>k. rmatch ?frac (drop k ?s) c) ?ks)"
    by (simp only: rmatch.simps(3,4) rep_counts_digits[OF ds a(1)] map_map o_def split_conv)
  also have "\<dots> = concat (map (\<lambda>k. [(drop k ?s, c)]) ?ks)"
    using frac by (intro arg_cong[where f = concat] map_cong refl) blast
  also have "\<dots> = map (\<lambda>k. (drop k ?s, c)) ?ks"
    by (induction ?ks) simp_all
  finally have seq: "rmatch (Seq (Rep digits 1 None) ?frac) ?s c =
      map (\<lambda>k. (drop k ?s, c)) ?ks" .
  have len: "length ?s - length (drop k ?s) = k" if "k \<in> set ?ks" for k
    using that by auto
  have "rmatch (num i) ?s c =
      map (\<lambda>(s', c'). (s', c'(i \<mapsto> take (length ?s - length s') ?s)))
        (map (\<lambda>k. (drop k ?s, c)) ?ks)"
    unfolding num_def by (simp only: rmatch.simps(7) seq)
  also have "\<dots> = map (\<lambda>k. (drop k ?s, c(i \<mapsto> take (length ?s - length (drop k ?s)) ?s))) ?ks"
    by (simp only: map_map o_def split_conv)
  also have "\<dots> = map (\<lambda>k. (drop k ?s, c(i \<mapsto> take k ?s))) ?ks"
    using len by (intro map_cong refl) simp
  finally show ?thesis .
qed

lemma num_letter:
  assumes ds: "all_digits ds" and a: "a \<notin> set digits" "a \<noteq> CHR ''.''"
    and x: "x \<notin> set digits"
  shows "rmatch (Seq (num i) (Chr x)) (ds @ a # r) c =
     (if a = x then [(r, c(i \<mapsto> ds))] else [])"
proof -
  let ?s = "ds @ a # r"
  let ?F = "\<lambda>k. rmatch (Chr x) (drop k ?s) (c(i \<mapsto> take k ?s))"
  have short: "?F k = []" if "k \<in> set (rev [1..<length ds])" for k
  proof -
    from that have k: "k < length ds" by simp
    from drop_digit[OF ds k, of "a # r"] x
    have "drop k ?s = [] \<or> hd (drop k ?s) \<noteq> x" using k by auto
    then show ?thesis by (rule chr_fail)
  qed
  have "rmatch (Seq (num i) (Chr x)) ?s c =
      concat (map ?F (length ds # rev [1..<length ds]))"
    by (simp only: rmatch.simps(4) num_counts[OF ds a] map_map o_def split_conv)
  also have "\<dots> = ?F (length ds) @ concat (map ?F (rev [1..<length ds]))"
    by simp
  also have "concat (map ?F (rev [1..<length ds])) = []"
    using short by (intro concat_map_empty) blast
  also have "?F (length ds) = (if a = x then [(r, c(i \<mapsto> ds))] else [])"
    by simp
  finally show ?thesis by (simp only: append_Nil2)
qed

lemma comp_take:
  assumes "all_digits ds" and "a \<notin> set digits" "a \<noteq> CHR ''.''" and "x \<notin> set digits"
  shows "rmatch (comp i x) (ds @ a # r) c =
     (if a = x then [(r, c(i \<mapsto> ds))] else []) @ [(ds @ a # r, c)]"
  unfolding comp_def by (simp only: rmatch.simps(6) num_letter[OF assms])

lemma comp_skip:
  assumes "s = [] \<or> hd s \<notin> set digits"
  shows "rmatch (comp i x) s c = [(s, c)]"
  by (simp only: comp_def num_def rmatch.simps(3,4,6,7) rep_counts_none[OF assms]
      list.map concat.simps append_Nil)

section \<open>The designator M before and after T\<close>

lemma chr_hit: "rmatch (Chr x) (x # t) c = [(t, c)]"
  by simp

lemma chr_miss: "a \<noteq> x \<Longrightarrow> rmatch (Chr x) (a # t) c = []"
  by simp

lemma chr_nil: "rmatch (Chr x) [] c = []"
  by simp

lemma chr_digits:
  assumes "all_digits ds" and "x \<notin> set digits"
  shows "rmatch (Chr x) (ds @ t) c = []"
proof -
  have "ds \<noteq> []" using assms(1) by (simp add: all_digits_def)
  then have "0 < length ds" by simp
  from drop_digit[OF assms(1) this, of t] assms(2)
  have "ds @ t = [] \<or> hd (ds @ t) \<noteq> x" by auto
  then show ?thesis by (rule chr_fail)
qed

lemma eos_digits:
  assumes "all_digits ds"
  shows "rmatch Eos (ds @ a # r) c = []"
proof -
  have "ds \<noteq> []" using assms by (simp add: all_digits_def)
  then obtain d ds' where "ds = d # ds'" by (cases ds) auto
  then show ?thesis by simp
qed

lemma designators_not_digits:
  "CHR ''Y'' \<notin> set digits" "CHR ''M'' \<notin> set digits" "CHR ''D'' \<notin> set digits"
  "CHR ''T'' \<notin> set digits" "CHR ''H'' \<notin> set digits" "CHR ''S'' \<notin> set digits"
  "CHR ''P'' \<notin> set digits"
  by (simp_all add: digits_def)

lemmas duration_steps =
  rmatch.simps(2,4,5,6,7,8) chr_hit chr_miss chr_nil chr_digits eos_digits
  comp_take comp_skip designators_not_digits

lemma match_months:
  assumes "all_digits ds"
  shows "rmatch RE_ISO_8601_DURATION (CHR ''P'' # ds @ ''M'') c =
     [([], c(g_months \<mapsto> ds)), ([], c(g_minutes \<mapsto> ds))]"
  unfolding RE_ISO_8601_DURATION_def seqs.simps
  using assms by (simp only: duration_steps) (simp del: rmatch.simps add: duration_steps)


lemma match_minutes:
  assumes "all_digits ds"
  shows "rmatch RE_ISO_8601_DURATION (CHR ''P'' # CHR ''T'' # ds @ ''M'') c =
     [([], c(g_minutes \<mapsto> ds))]"
  unfolding RE_ISO_8601_DURATION_def seqs.simps
  using assms by (simp only: duration_steps) (simp del: rmatch.simps add: duration_steps)

lemma match_days:
  assumes "all_digits ds"
  shows "rmatch RE_ISO_8601_DURATION (CHR ''P'' # ds @ ''D'') c = [([], c(g_days \<mapsto> ds))]"
  unfolding RE_ISO_8601_DURATION_def seqs.simps
  using assms by (simp only: duration_steps) (simp del: rmatch.simps add: duration_steps)

lemma groups_months:
  assumes "all_digits ds"
  shows "\<exists>m. re_match RE_ISO_8601_DURATION (''P'' @ ds @ ''M'') = Some m \<and>
     dgroups m = [None, None, Some ds, None, None, None, None]"
  using match_months[OF assms]
  by (simp add: re_match_def dgroups_def g_sign_def g_years_def g_months_def g_days_def
      g_hours_def g_minutes_def g_seconds_def)

lemma groups_minutes:
  assumes "all_digits ds"
  shows "\<exists>m. re_match RE_ISO_8601_DURATION (''PT'' @ ds @ ''M'') = Some m \<and>
     dgroups m = [None, None, None, None, None, Some ds, None]"
  using match_minutes[OF assms]
  by (simp add: re_match_def dgroups_def g_sign_def g_years_def g_months_def g_days_def
      g_hours_def g_minutes_def g_seconds_def)

lemma groups_days:
  assumes "all_digits ds"
  shows "\<exists>m. re_match RE_ISO_8601_DURATION (''P'' @ ds @ ''D'') = Some m \<and>
     dgroups m = [None, None, None, Some ds, None, None, None]"
  using match_days[OF assms]
  by (simp add: re_match_def dgroups_def g_sign_def g_years_def g_months_def g_days_def
      g_hours_def g_minutes_def g_seconds_def)

lemma whole_digits: "all_digits ds \<Longrightarrow> whole (Some ds)" "whole None"
  by (simp_all add: whole_def)

lemma component_digits: "component (Some ds) = nat_of_digits ds" "component None = 0"
  by (simp_all add: component_def)

lemma parse_months:
  assumes "all_digits ds" and "30 * nat_of_digits ds \<le> 999999999"
  shows "parse_duration (Str (''P'' @ ds @ ''M'')) =
     Inr \<lparr>days = int (30 * nat_of_digits ds), seconds = 0, microseconds = 0\<rparr>"
proof -
  from groups_months[OF assms(1)] obtain m where
    m: "re_match RE_ISO_8601_DURATION (''P'' @ ds @ ''M'') = Some m"
    and g: "dgroups m = [None, None, Some ds, None, None, None, None]"
    by blast
  show ?thesis
    using parse_duration_whole[OF m g] assms
    by (simp add: whole_digits component_digits)
qed

lemma parse_minutes:
  assumes "all_digits ds" and "60 * nat_of_digits ds div 86400 \<le> 999999999"
  shows "parse_duration (Str (''PT'' @ ds @ ''M'')) =
     Inr \<lparr>days = int (60 * nat_of_digits ds div 86400),
          seconds = int (60 * nat_of_digits ds mod 86400), microseconds = 0\<rparr>"
proof -
  from groups_minutes[OF assms(1)] obtain m where
    m: "re_match RE_ISO_8601_DURATION (''PT'' @ ds @ ''M'') = Some m"
    and g: "dgroups m = [None, None, None, None, None, Some ds, None]"
    by blast
  show ?thesis
    using parse_duration_whole[OF m g] assms
    by (simp add: whole_digits component_digits)
qed

lemma parse_days:
  assumes "all_digits ds" and "nat_of_digits ds \<le> 999999999"
  shows "parse_duration (Str (''P'' @ ds @ ''D'')) =
     Inr \<lparr>days = int (nat_of_digits ds), seconds = 0, microseconds = 0\<rparr>"
proof -
  from groups_days[OF assms(1)] obtain m where
    m: "re_match RE_ISO_8601_DURATION (''P'' @ ds @ ''D'') = Some m"
    and g: "dgroups m = [None, None, None, Some ds, None, None, None]"
    by blast
  show ?thesis
    using parse_duration_whole[OF m g] assms
    by (simp add: whole_digits component_digits)
qed

section \<open>Reading back a decimal numeral\<close>

lemma digit_val_char: "k < 10 \<Longrightarrow> digit_val (digit_char k) = k"
  by (simp add: digit_val_def digit_char_def)

lemma nat_of_digits_snoc: "nat_of_digits (xs @ [c]) = 10 * nat_of_digits xs + digit_val c"
  by (simp add: nat_of_digits_def)

lemma nat_of_digits_dec: "nat_of_digits (dec n) = n"
proof (induction n rule: dec.induct)
  case (1 n)
  show ?case
  proof (cases "n < 10")
    case True
    then show ?thesis
      by (subst dec.simps) (simp add: nat_of_digits_def digit_val_char)
  next
    case False
    have "nat_of_digits (dec (n div 10) @ [digit_char (n mod 10)]) =
        10 * nat_of_digits (dec (n div 10)) + digit_val (digit_char (n mod 10))"
      by (rule nat_of_digits_snoc)
    also have "\<dots> = 10 * (n div 10) + n mod 10"
      using 1[OF False] by (simp add: digit_val_char)
    also have "\<dots> = n" by simp
    finally show ?thesis using False by (subst dec.simps) simp
  qed
qed

section \<open>The round trip of a number of days (claim C8)\<close>

text \<open>
  Claim C8: for every day-only duration string \<^verbatim>\<open>P<n>D\<close> with a whole number of days
  that is not zero, encoding the parsed value gives the same string back. As stated the
  claim fails for a number written with a leading zero: \<^verbatim>\<open>P01D\<close> is one day, and one
  day is encoded as \<^verbatim>\<open>P1D\<close>.
\<close>

theorem round_trip_P01D:
  "bind (parse_duration (Str ''P01D'')) (\<lambda>v. encode_duration (Timedelta v)) = Inr ''P1D'' \<and>
   ''P1D'' \<noteq> ''P01D''"
proof -
  have a: "all_digits ''01''" by (simp add: all_digits_def digits_def)
  have n: "nat_of_digits ''01'' = 1" by (simp add: nat_of_digits_def digit_val_def)
  have p: "parse_duration (Str ''P01D'') = Inr \<lparr>days = 1, seconds = 0, microseconds = 0\<rparr>"
    using parse_days[OF a] by (simp add: n)
  have "valid_timedelta \<lparr>days = 1, seconds = 0, microseconds = 0\<rparr>"
    by (simp add: valid_timedelta_def)
  then have "encode_duration (Timedelta \<lparr>days = 1, seconds = 0, microseconds = 0\<rparr>) =
      Inr ''P1D''"
    using encode_duration_nonneg[of "\<lparr>days = 1, seconds = 0, microseconds = 0\<rparr>"]
    by (simp add: spec_text_examples)
  then show ?thesis by (simp add: p bind_def)
qed

text \<open>
  Claim C8 as amended: for every whole number n from 1 to 999999999, written as its
  decimal numeral without leading zeros, \<^verbatim>\<open>encode_duration(parse_duration("P<n>D"))\<close>
  is \<^verbatim>\<open>P<n>D\<close> again; in particular for \<^verbatim>\<open>P1D\<close>.
\<close>

theorem round_trip_days:
  assumes "1 \<le> n" and "n \<le> 999999999"
  shows "bind (parse_duration (Str (''P'' @ dec n @ ''D'')))
      (\<lambda>v. encode_duration (Timedelta v)) = Inr (''P'' @ dec n @ ''D'')"
proof -
  let ?v = "\<lparr>days = int n, seconds = 0, microseconds = 0\<rparr>"
  have p: "parse_duration (Str (''P'' @ dec n @ ''D'')) = Inr ?v"
    using parse_days[OF all_digits_dec[of n]] assms(2) by (simp add: nat_of_digits_dec)
  have v: "valid_timedelta ?v" using assms(2) by (simp add: valid_timedelta_def)
  have "encode_duration (Timedelta ?v) = Inr (spec_text ?v)"
    using v by (rule encode_duration_nonneg) simp
  also have "spec_text ?v = ''P'' @ dec n @ ''D''"
    using assms(1) by (simp add: spec_text_def)
  finally show ?thesis using p by (simp add: bind_def)
qed

theorem round_trip_days_witness:
  "(1::nat) \<le> 1 \<and> (1::nat) \<le> 999999999 \<and>
   bind (parse_duration (Str ''P1D'')) (\<lambda>v. encode_duration (Timedelta v)) = Inr ''P1D''"
  using round_trip_days[of 1] by (simp add: dec_Suc_0)

section \<open>What a match consists of\<close>

lemma in_Chr: "(t, c') \<in> set (rmatch (Chr a) s c) \<longleftrightarrow> s = a # t \<and> c' = c"
  by (cases s) auto

lemma in_Cls:
  "(t, c') \<in> set (rmatch (Cls cs) s c) \<longleftrightarrow> (\<exists>x. s = x # t \<and> x \<in> set cs) \<and> c' = c"
  by (cases s) auto

lemma in_Seq:
  "(t, c') \<in> set (rmatch (Seq a b) s c) \<longleftrightarrow>
     (\<exists>t1 c1. (t1, c1) \<in> set (rmatch a s c) \<and> (t, c') \<in> set (rmatch b t1 c1))"
  by auto

lemma in_Alt:
  "(t, c') \<in> set (rmatch (Alt a b) s c) \<longleftrightarrow>
     (t, c') \<in> set (rmatch a s c) \<or> (t, c') \<in> set (rmatch b s c)"
  by simp

lemma in_Opt:
  "(t, c') \<in> set (rmatch (Opt a) s c) \<longleftrightarrow> (t, c') \<in> set (rmatch a s c) \<or> (t = s \<and> c' = c)"
  by auto

lemma in_Grp:
  "(t, c') \<in> set (rmatch (Grp i a) s c) \<longleftrightarrow>
     (\<exists>c1. (t, c1) \<in> set (rmatch a s c) \<and> c' = c1(i \<mapsto> take (length s - length t) s))"
  by auto

lemma in_Eos: "(t, c') \<in> set (rmatch Eos s c) \<Longrightarrow> c' = c"
  by (auto split: if_splits)

lemma in_d2:
  "(t, c') \<in> set (rmatch d2 s c) \<longleftrightarrow>
     c' = c \<and> (\<exists>a b. s = a # b # t \<and> a \<in> set digits \<and> b \<in> set digits)"
proof (cases s)
  case Nil
  then show ?thesis by (simp add: d2_def rep_counts_def)
next
  case (Cons a s1)
  show ?thesis
  proof (cases s1)
    case Nil
    with Cons show ?thesis by (simp add: d2_def rep_counts_def)
  next
    case (Cons b s2)
    with \<open>s = a # s1\<close> show ?thesis
      by (auto simp: d2_def rep_counts_def Let_def)
  qed
qed


section \<open>The zone groups of a date-time match\<close>

lemmas in_rmatch = in_Chr in_Cls in_Seq in_Alt in_Opt in_Grp in_d2

lemma zoned_long_zone:
  "zoned (Opt (Grp 8 (Alt (Chr CHR ''Z'')
     (Seq (Grp 9 (Seq (Cls ''+-'') d2)) (Opt (Seq (Chr CHR '':'') (Grp 10 d2)))))))"
  unfolding zoned_def zone_shape_def
  by (auto simp del: rmatch.simps simp add: in_rmatch)

lemma zoned_short_zone:
  "zoned (Opt (Grp 8 (Alt (Chr CHR ''Z'')
     (Seq (Grp 9 (Seq (Cls ''+-'') d2)) (Opt (Grp 10 d2))))))"
  unfolding zoned_def zone_shape_def
  by (auto simp del: rmatch.simps simp add: in_rmatch)

lemma zoned_Seq:
  assumes "8 \<notin> groups a" "9 \<notin> groups a" "10 \<notin> groups a" and "zoned b"
  shows "zoned (Seq a b)"
  unfolding zoned_def
proof (intro allI impI, elim conjE)
  fix s c t c'
  assume c: "c 8 = None" "c 9 = None" "c 10 = None"
    and "(t, c') \<in> set (rmatch (Seq a b) s c)"
  then obtain t1 c1 where a: "(t1, c1) \<in> set (rmatch a s c)"
    and b: "(t, c') \<in> set (rmatch b t1 c1)"
    by (auto simp only: in_Seq)
  have "c1 8 = None" "c1 9 = None" "c1 10 = None"
    using rmatch_frame[OF a] assms(1-3) c by simp_all
  with assms(4) b show "zone_shape c'" unfolding zoned_def by blast
qed

lemma zoned_Opt:
  assumes "zoned a"
  shows "zoned (Opt a)"
  unfolding zoned_def
proof (intro allI impI, elim conjE)
  fix s c t c'
  assume c: "c 8 = None" "c 9 = None" "c 10 = None"
    and "(t, c') \<in> set (rmatch (Opt a) s c)"
  then have "(t, c') \<in> set (rmatch a s c) \<or> c' = c" by (auto simp only: in_Opt)
  then show "zone_shape c'"
  proof
    assume "(t, c') \<in> set (rmatch a s c)"
    with assms c show ?thesis unfolding zoned_def by blast
  next
    assume "c' = c"
    with c show ?thesis by (simp add: zone_shape_def)
  qed
qed

lemma zoned_Eos:
  assumes "zoned a"
  shows "zoned (Seq a Eos)"
  unfolding zoned_def
proof (intro allI impI, elim conjE)
  fix s c t c'
  assume c: "c 8 = None" "c 9 = None" "c 10 = None"
    and "(t, c') \<in> set (rmatch (Seq a Eos) s c)"
  then obtain t1 c1 where a: "(t1, c1) \<in> set (rmatch a s c)"
    and b: "(t, c') \<in> set (rmatch Eos t1 c1)"
    by (auto simp only: in_Seq)
  from b have "c' = c1" by (rule in_Eos)
  with assms a c show "zone_shape c'" unfolding zoned_def by blast
qed

lemma zoned_long: "zoned RE_ISO_8601_DATETIME_LONG"
  unfolding RE_ISO_8601_DATETIME_LONG_def seqs.simps
  by (intro zoned_Seq zoned_Eos zoned_Opt zoned_long_zone) (simp_all add: d2_def d4_def)

lemma zoned_short: "zoned RE_ISO_8601_DATETIME_SHORT"
  unfolding RE_ISO_8601_DATETIME_SHORT_def seqs.simps
  by (intro zoned_Seq zoned_Eos zoned_Opt zoned_short_zone) (simp_all add: d2_def d4_def)

lemma zonedD:
  "zoned r \<Longrightarrow> c 8 = None \<Longrightarrow> c 9 = None \<Longrightarrow> c 10 = None
     \<Longrightarrow> (t, c') \<in> set (rmatch r s c) \<Longrightarrow> zone_shape c'"
  unfolding zoned_def by blast

lemma re_match_in:
  assumes "re_match r s = Some g"
  shows "\<exists>t. (t, g) \<in> set (rmatch r s (\<lambda>_. None))"
  using assms by (auto simp: re_match_def split: list.splits)

lemma match_datetime_zone:
  assumes "match_datetime s = Some g"
  shows "zone_shape g"
proof -
  from assms have "re_match RE_ISO_8601_DATETIME_LONG s = Some g \<or>
      re_match RE_ISO_8601_DATETIME_SHORT s = Some g"
    by (auto simp: match_datetime_def split: option.splits)
  then obtain t where "(t, g) \<in> set (rmatch RE_ISO_8601_DATETIME_LONG s (\<lambda>_. None)) \<or>
      (t, g) \<in> set (rmatch RE_ISO_8601_DATETIME_SHORT s (\<lambda>_. None))"
    using re_match_in by blast
  moreover have "zone_shape c'"
    if "(t, c') \<in> set (rmatch r s (\<lambda>_. None))" and "zoned r" for r c'
    by (rule zonedD[OF that(2) _ _ _ that(1)]) simp_all
  ultimately show ?thesis using zoned_long zoned_short by blast
qed

section \<open>The zone of an explicit offset\<close>

lemma digit_vals: "list_all (\<lambda>c. digit_val c \<le> 9) digits"
  by (simp add: digits_def digit_val_def)

lemma digit_val_le: "c \<in> set digits \<Longrightarrow> digit_val c \<le> 9"
  using digit_vals by (simp only: list_all_iff)

lemma two_digits:
  assumes "a \<in> set digits" "b \<in> set digits"
  shows "all_digits [a, b] \<and> nat_of_digits [a, b] \<le> 99"
  using digit_val_le[OF assms(1)] digit_val_le[OF assms(2)] assms
  by (simp add: all_digits_def nat_of_digits_def)

lemma py_int_signed:
  assumes "all_digits ds" and "sg = CHR ''+'' \<or> sg = CHR ''-''"
  shows "py_int (sg # ds) = Inr ((if sg = CHR ''-'' then - 1 else 1) * int (nat_of_digits ds))"
  using assms by (auto simp: py_int_def)

lemma small_delta:
  assumes "\<bar>x\<bar> \<le> 100000"
  shows "\<exists>off. microseconds_to_delta (x * 60000000) = Inr off"
proof -
  have "x * 60000000 div 1000000 = x * 60" by simp
  moreover have "- 999999999 \<le> x * 60 div 86400" "x * 60 div 86400 \<le> 999999999"
    using assms by linarith+
  ultimately show ?thesis by (simp add: microseconds_to_delta_def Let_def)
qed

lemma tz_of_groups_offset:
  assumes "zone_shape g" and "g 8 = Some z" and "z \<noteq> ''Z''"
  shows "\<exists>sg hh off. g 9 = Some (sg # hh) \<and> (sg = CHR ''+'' \<or> sg = CHR ''-'') \<and>
     all_digits hh \<and> length hh = 2 \<and> whole (g 10) \<and>
     microseconds_to_delta ((if sg = CHR ''-'' then - 1 else 1) *
        (int (nat_of_digits hh) * 60 + int (component (g 10))) * 60000000) = Inr off \<and>
     tz_of_groups g tz_local =
       Inr (Some \<lparr>offset = off, label = sg # hh @ '':'' @ str_or (g 10) ''00''\<rparr>)"
proof -
  have "\<not> (g 8 = None \<and> g 9 = None \<and> g 10 = None)"
    "\<not> (g 8 = Some ''Z'' \<and> g 9 = None \<and> g 10 = None)"
    using assms(2,3) by simp_all
  with assms(1) have "\<exists>sg a b z. g 8 = Some (sg # z) \<and> g 9 = Some [sg, a, b] \<and>
        (sg = CHR ''+'' \<or> sg = CHR ''-'') \<and> a \<in> set digits \<and> b \<in> set digits \<and>
        (g 10 = None \<or>
         (\<exists>m1 m2. g 10 = Some [m1, m2] \<and> m1 \<in> set digits \<and> m2 \<in> set digits))"
    unfolding zone_shape_def by blast
  then obtain sg a b z' where
    g8: "g 8 = Some (sg # z')" and g9: "g 9 = Some [sg, a, b]"
    and sg: "sg = CHR ''+'' \<or> sg = CHR ''-''"
    and ab: "a \<in> set digits" "b \<in> set digits"
    and g10: "g 10 = None \<or> (\<exists>m1 m2. g 10 = Some [m1, m2] \<and> m1 \<in> set digits \<and> m2 \<in> set digits)"
    by blast
  define sgn :: int where "sgn = (if sg = CHR ''-'' then - 1 else 1)"
  define H where "H = nat_of_digits [a, b]"
  define M where "M = component (g 10)"
  have hh: "all_digits [a, b]" "H \<le> 99" using two_digits[OF ab] by (simp_all add: H_def)
  have z0: "all_digits ''0''" "nat_of_digits ''0'' = 0"
    by (simp_all add: all_digits_def digits_def nat_of_digits_def digit_val_def)
  have mm: "whole (g 10) \<and> M \<le> 99 \<and> all_digits (str_or (g 10) ''0'') \<and>
      nat_of_digits (str_or (g 10) ''0'') = M"
    using g10
  proof
    assume "g 10 = None"
    then show ?thesis by (simp add: whole_def M_def component_def str_or_def z0)
  next
    assume "\<exists>m1 m2. g 10 = Some [m1, m2] \<and> m1 \<in> set digits \<and> m2 \<in> set digits"
    then obtain m1 m2 where m: "g 10 = Some [m1, m2]" "m1 \<in> set digits" "m2 \<in> set digits"
      by blast
    from two_digits[OF m(2,3)] m(1) show ?thesis
      by (simp add: whole_def M_def component_def str_or_def)
  qed
  have h: "int_or0 (Some [sg, a, b]) = Inr (sgn * int H)"
    using py_int_signed[OF hh(1) sg] by (simp add: int_or0_def sgn_def H_def)
  have l9: "str_or (Some [sg, a, b]) ''None'' = [sg, a, b]" by (simp add: str_or_def)
  have m: "py_int (sg # str_or (g 10) ''0'') = Inr (sgn * int M)"
    using py_int_signed[of "str_or (g 10) ''0''" sg] mm sg by (simp add: sgn_def)
  have x: "sgn * int M * us_per_minute + sgn * int H * us_per_hour =
      sgn * (int H * 60 + int M) * 60000000"
    by (simp add: us_per_minute_def us_per_hour_def algebra_simps)
  have "\<bar>sgn * (int H * 60 + int M)\<bar> \<le> 100000"
    using hh(2) mm by (simp add: sgn_def abs_mult)
  then obtain off where off: "microseconds_to_delta (sgn * (int H * 60 + int M) * 60000000) = Inr off"
    using small_delta by blast
  have nz: "sg \<noteq> CHR ''Z''" using sg by auto
  have "tz_of_groups g tz_local =
      Inr (Some \<lparr>offset = off, label = [sg, a, b] @ '':'' @ str_or (g 10) ''00''\<rparr>)"
    by (simp add: tz_of_groups_def g8 g9 h m l9 nz bind_def timedelta_of_hm_def x off)
  then show ?thesis
    using g9 sg hh(1) mm off unfolding sgn_def H_def M_def by auto
qed

section \<open>Conversion to UTC\<close>

lemma check_offset_ZERO: "check_offset ZERO = Inr ZERO"
  by (simp add: check_offset_def ZERO_def)

lemma fromutc_UTC: "fromutc UTC v = Inr v"
  by (simp add: fromutc_def UTC_def utcoffset_def dst_def check_offset_ZERO bind_def)

lemma check_offset_Inr: "check_offset off = Inr x \<Longrightarrow> x = off"
  by (auto simp: check_offset_def split: if_splits)

lemma datetime_add_tzinfo: "datetime_add v delta = Inr u \<Longrightarrow> tzinfo u = tzinfo v"
  by (auto simp: datetime_add_def Let_def split: if_splits)

lemma to_utc_naive_aware:
  assumes "tzinfo v = Some z"
  shows "to_utc_naive v =
     bind (check_offset (utcoffset z)) (\<lambda>off.
     bind (datetime_sub v off) (\<lambda>u. Inr (u\<lparr>tzinfo := None\<rparr>)))"
proof (cases "check_offset (utcoffset z)")
  case (Inl e)
  then show ?thesis using assms by (simp add: to_utc_naive_def astimezone_def bind_def)
next
  case (Inr off)
  show ?thesis
  proof (cases "datetime_sub v off")
    case (Inl e)
    then show ?thesis
      using assms Inr by (simp add: to_utc_naive_def astimezone_def bind_def)
  next
    case u: (Inr u)
    then show ?thesis
      using assms Inr by (simp add: to_utc_naive_def astimezone_def bind_def fromutc_UTC)
  qed
qed

lemma to_utc_naive_result:
  assumes "to_utc_naive v = Inr r"
  shows "tzinfo r = None \<and> (tzinfo v = None \<longrightarrow> r = v) \<and>
     (\<forall>z. tzinfo v = Some z \<longrightarrow>
        (\<exists>u. check_offset (utcoffset z) = Inr (utcoffset z) \<and>
             datetime_sub v (utcoffset z) = Inr u \<and> r = u\<lparr>tzinfo := None\<rparr>))"
proof (cases "tzinfo v")
  case None
  with assms show ?thesis by (simp add: to_utc_naive_def)
next
  case (Some z)
  from assms obtain off u where
    c: "check_offset (utcoffset z) = Inr off" and s: "datetime_sub v off = Inr u"
    and r: "r = u\<lparr>tzinfo := None\<rparr>"
    unfolding to_utc_naive_aware[OF Some] by (auto simp: bind_Inr_iff)
  have "off = utcoffset z" using c by (rule check_offset_Inr)
  with c s r Some show ?thesis by simp
qed

section \<open>The example of an offset with minutes\<close>

lemma example_match:
  "map_option dtgroups (match_datetime ''2020-01-01T00:00:00-01:30'') =
     Some [Some ''2020'', Some ''01'', Some ''01'', Some ''00'', Some ''00'', Some ''00'', None,
       Some ''-01:30'', Some ''-01'', Some ''30'']"
  by code_simp

lemma dtgroups_eq:
  "dtgroups g = [a, b, c, d, e, f, h, i, j, k] \<longleftrightarrow>
     g 1 = a \<and> g 2 = b \<and> g 3 = c \<and> g 4 = d \<and> g 5 = e \<and> g 6 = f \<and> g 7 = h \<and>
     g 8 = i \<and> g 9 = j \<and> g 10 = k"
  by (auto simp: dtgroups_def)

lemma example_sub:
  "datetime_sub \<lparr>year = 2020, month = 1, day = 1, hour = 0, minute = 0, second = 0,
      microsecond = 0, tzinfo = Some tz\<rparr> \<lparr>days = - 1, seconds = 81000, microseconds = 0\<rparr>
   = Inr \<lparr>year = 2020, month = 1, day = 1, hour = 1, minute = 30, second = 0,
      microsecond = 0, tzinfo = Some tz\<rparr>"
  by (simp add: datetime_sub_def timedelta_neg_def td_to_us_def microseconds_to_delta_def
      bind_def datetime_add_def datetime_to_us_def ymd2ord_def days_before_year_def
      days_before_month_def DAYS_BEFORE_MONTH_def is_leap_def MAXORDINAL_def ord2ymd_def
      DAYS_IN_MONTH_def Let_def)

lemma example_ints:
  "py_int ''2020'' = Inr 2020" "py_int ''01'' = Inr 1" "py_int ''00'' = Inr 0"
  "py_int ''000000'' = Inr 0" "py_int ''-01'' = Inr (- 1)" "py_int ''-30'' = Inr (- 30)"
  by (simp_all add: py_int_def all_digits_def digits_def nat_of_digits_def digit_val_def)

lemma example_parse:
  "parse_datetime (Str ''2020-01-01T00:00:00-01:30'') None =
     Inr \<lparr>year = 2020, month = 1, day = 1, hour = 1, minute = 30, second = 0,
          microsecond = 0, tzinfo = None\<rparr>"
proof -
  from example_match obtain g where
    m: "match_datetime ''2020-01-01T00:00:00-01:30'' = Some g"
    and "dtgroups g = [Some ''2020'', Some ''01'', Some ''01'', Some ''00'', Some ''00'',
       Some ''00'', None, Some ''-01:30'', Some ''-01'', Some ''30'']"
    by (auto simp: map_option_case split: option.splits)
  then have g: "g 1 = Some ''2020''" "g 2 = Some ''01''" "g 3 = Some ''01''"
    "g 4 = Some ''00''" "g 5 = Some ''00''" "g 6 = Some ''00''" "g 7 = None"
    "g 8 = Some ''-01:30''" "g 9 = Some ''-01''" "g 10 = Some ''30''"
    by (simp_all add: dtgroups_eq)
  have g1: "g (Suc 0) = Some ''2020''" using g(1) by simp
  let ?tz = "\<lparr>offset = \<lparr>days = - 1, seconds = 81000, microseconds = 0\<rparr>, label = ''-01:30''\<rparr>"
  have tz: "tz_of_groups g None = Inr (Some ?tz)"
    by (simp add: tz_of_groups_def g int_or0_def example_ints str_or_def bind_def
        timedelta_of_hm_def us_per_minute_def us_per_hour_def microseconds_to_delta_def)
  have rd: "read_datetime (Str ''2020-01-01T00:00:00-01:30'') None =
      Inr \<lparr>year = 2020, month = 1, day = 1, hour = 0, minute = 0, second = 0,
          microsecond = 0, tzinfo = Some ?tz\<rparr>"
    by (simp add: read_datetime_def m tz g g1 int_group_def int_or0_def example_ints str_or_def
        bind_def datetime_new_def MINYEAR_def MAXYEAR_def days_in_month_def DAYS_IN_MONTH_def)
  show ?thesis
    unfolding parse_datetime_def rd
    by (simp add: bind_def to_utc_naive_aware utcoffset_def check_offset_def example_sub)
qed

section \<open>The zone of a parsed string\<close>

lemma datetime_new_tzinfo: "datetime_new y m d hh mm ss us tz = Inr dt \<Longrightarrow> tzinfo dt = tz"
  by (auto simp: datetime_new_def split: if_splits)

lemma read_datetime_Str:
  assumes "read_datetime (Str s) tz_local = Inr dt"
  shows "\<exists>g. match_datetime s = Some g \<and> tz_of_groups g tz_local = Inr (tzinfo dt)"
proof (cases "match_datetime s")
  case None
  with assms show ?thesis by (simp add: read_datetime_def)
next
  case (Some g)
  from assms obtain tz y m d hh mm ss us where
    tz: "tz_of_groups g tz_local = Inr tz"
    and dt: "datetime_new y m d hh mm ss us tz = Inr dt"
    unfolding read_datetime_def pyvalue.case Some option.case bind_Inr_iff by blast
  from dt have "tzinfo dt = tz" by (rule datetime_new_tzinfo)
  with tz Some show ?thesis by simp
qed

lemma read_datetime_zone:
  assumes "match_datetime s = Some g" and "tz_of_groups g tz_local = Inr tz"
    and "read_datetime (Str s) tz_local = Inr dt"
  shows "tzinfo dt = tz"
  using read_datetime_Str[OF assms(3)] assms(1,2) by auto

lemma tz_of_groups_None: "g 8 = None \<Longrightarrow> tz_of_groups g tz_local = Inr tz_local"
  by (simp add: tz_of_groups_def)

lemma tz_of_groups_Z: "g 8 = Some ''Z'' \<Longrightarrow> tz_of_groups g tz_local = Inr (Some UTC)"
  by (simp add: tz_of_groups_def)

lemma parse_datetime_aware:
  assumes "parse_datetime v tz_local = Inr r" and "read_datetime v tz_local = Inr dt"
    and "tzinfo dt = Some z"
  shows "\<exists>u. datetime_sub dt (utcoffset z) = Inr u \<and> r = u\<lparr>tzinfo := None\<rparr>"
proof -
  from assms(1,2) have "to_utc_naive dt = Inr r" by (simp add: parse_datetime_def bind_def)
  from to_utc_naive_result[OF this] assms(3) show ?thesis by blast
qed

section \<open>Claim C4\<close>

text \<open>
  Claim C4: for every date-time string with an explicit signed offset other than
  \<^verbatim>\<open>Z\<close>, that is, whenever one of the two patterns matches and the group \<^verbatim>\<open>tzone\<close>
  (group 8) is set and is not \<^verbatim>\<open>Z\<close>: the group \<^verbatim>\<open>tz_hour\<close> (group 9) is a sign
  followed by two digits \<open>hh\<close>, the group \<^verbatim>\<open>tz_min\<close> (group 10) is unset or digits
  \<open>mm\<close>, and \<^verbatim>\<open>parse_datetime\<close> attaches the fixed-offset zone whose offset is
  \<open>hh\<close> hours and \<open>mm\<close> minutes, both with the sign of the hour field (the elapsed
  time of that many microseconds, as the constructor normalises it), and whose label
  is the hour field, a colon and the minutes. Every value that \<^verbatim>\<open>parse_datetime\<close> returns
  for such a string is the parsed civil time minus that offset, without a zone.
  Consequently \<^verbatim>\<open>parse_datetime("2020-01-01T00:00:00-01:30")\<close> is the naive timestamp
  2020-01-01 01:30:00.
\<close>

theorem offset_zone:
  "(match_datetime s = Some g \<and> g 8 = Some z \<and> z \<noteq> ''Z'' \<longrightarrow>
     (\<exists>sg hh off.
        g 9 = Some (sg # hh) \<and> (sg = CHR ''+'' \<or> sg = CHR ''-'') \<and>
        all_digits hh \<and> length hh = 2 \<and> whole (g 10) \<and>
        microseconds_to_delta
          ((if sg = CHR ''-'' then - 1 else 1)
             * (int (nat_of_digits hh) * 60 + int (component (g 10))) * 60000000) = Inr off \<and>
        td_to_us off =
          (if sg = CHR ''-'' then - 1 else 1)
            * (int (nat_of_digits hh) * 60 + int (component (g 10))) * 60000000 \<and>
        tz_of_groups g tz_local =
          Inr (Some \<lparr>offset = off, label = sg # hh @ '':'' @ str_or (g 10) ''00''\<rparr>) \<and>
        (\<forall>dt. read_datetime (Str s) tz_local = Inr dt \<longrightarrow>
           tzinfo dt = Some \<lparr>offset = off, label = sg # hh @ '':'' @ str_or (g 10) ''00''\<rparr>) \<and>
        (\<forall>r. parse_datetime (Str s) tz_local = Inr r \<longrightarrow>
           (\<exists>dt u. read_datetime (Str s) tz_local = Inr dt \<and>
              datetime_sub dt off = Inr u \<and> r = u\<lparr>tzinfo := None\<rparr>)))) \<and>
   parse_datetime (Str ''2020-01-01T00:00:00-01:30'') None =
     Inr \<lparr>year = 2020, month = 1, day = 1, hour = 1, minute = 30, second = 0,
          microsecond = 0, tzinfo = None\<rparr>"
proof (intro conjI impI)
  assume a: "match_datetime s = Some g \<and> g 8 = Some z \<and> z \<noteq> ''Z''"
  then have m: "match_datetime s = Some g" and z: "g 8 = Some z" "z \<noteq> ''Z''" by simp_all
  from m have "zone_shape g" by (rule match_datetime_zone)
  from tz_of_groups_offset[OF this z, of tz_local] obtain sg hh off where
    g9: "g 9 = Some (sg # hh)" and sg: "sg = CHR ''+'' \<or> sg = CHR ''-''"
    and hh: "all_digits hh" "length hh = 2" and mm: "whole (g 10)"
    and off: "microseconds_to_delta ((if sg = CHR ''-'' then - 1 else 1)
        * (int (nat_of_digits hh) * 60 + int (component (g 10))) * 60000000) = Inr off"
    and tz: "tz_of_groups g tz_local =
        Inr (Some \<lparr>offset = off, label = sg # hh @ '':'' @ str_or (g 10) ''00''\<rparr>)"
    by blast
  let ?tz = "\<lparr>offset = off, label = sg # hh @ '':'' @ str_or (g 10) ''00''\<rparr>"
  note v = microseconds_to_delta_valid[OF off]
  have rd: "tzinfo dt = Some ?tz" if "read_datetime (Str s) tz_local = Inr dt" for dt
    using m tz that by (rule read_datetime_zone)
  have pd: "\<exists>dt u. read_datetime (Str s) tz_local = Inr dt \<and>
      datetime_sub dt off = Inr u \<and> r = u\<lparr>tzinfo := None\<rparr>"
    if p: "parse_datetime (Str s) tz_local = Inr r" for r
  proof -
    from p obtain dt where d: "read_datetime (Str s) tz_local = Inr dt"
      unfolding parse_datetime_def bind_Inr_iff by blast
    from parse_datetime_aware[OF p d rd[OF d]] d show ?thesis
      by (auto simp: utcoffset_def)
  qed
  from g9 sg hh mm off v tz rd pd
  show "\<exists>sg hh off.
        g 9 = Some (sg # hh) \<and> (sg = CHR ''+'' \<or> sg = CHR ''-'') \<and>
        all_digits hh \<and> length hh = 2 \<and> whole (g 10) \<and>
        microseconds_to_delta
          ((if sg = CHR ''-'' then - 1 else 1)
             * (int (nat_of_digits hh) * 60 + int (component (g 10))) * 60000000) = Inr off \<and>
        td_to_us off =
          (if sg = CHR ''-'' then - 1 else 1)
            * (int (nat_of_digits hh) * 60 + int (component (g 10))) * 60000000 \<and>
        tz_of_groups g tz_local =
          Inr (Some \<lparr>offset = off, label = sg # hh @ '':'' @ str_or (g 10) ''00''\<rparr>) \<and>
        (\<forall>dt. read_datetime (Str s) tz_local = Inr dt \<longrightarrow>
           tzinfo dt = Some \<lparr>offset = off, label = sg # hh @ '':'' @ str_or (g 10) ''00''\<rparr>) \<and>
        (\<forall>r. parse_datetime (Str s) tz_local = Inr r \<longrightarrow>
           (\<exists>dt u. read_datetime (Str s) tz_local = Inr dt \<and>
              datetime_sub dt off = Inr u \<and> r = u\<lparr>tzinfo := None\<rparr>))"
    by blast
next
  show "parse_datetime (Str ''2020-01-01T00:00:00-01:30'') None =
     Inr \<lparr>year = 2020, month = 1, day = 1, hour = 1, minute = 30, second = 0,
          microsecond = 0, tzinfo = None\<rparr>"
    by (rule example_parse)
qed

theorem offset_zone_witness:
  "map_option dtgroups (match_datetime ''2020-01-01T00:00:00-01:30'') =
     Some [Some ''2020'', Some ''01'', Some ''01'', Some ''00'', Some ''00'', Some ''00'', None,
       Some ''-01:30'', Some ''-01'', Some ''30''] \<and>
   ''-01:30'' \<noteq> ''Z'' \<and>
   tz_of_groups (the (match_datetime ''2020-01-01T00:00:00-01:30'')) None =
     Inr (Some \<lparr>offset = \<lparr>days = - 1, seconds = 81000, microseconds = 0\<rparr>,
                label = ''-01:30''\<rparr>) \<and>
   parse_datetime (Str ''2020-01-01T00:00:00-01:30'') None =
     Inr \<lparr>year = 2020, month = 1, day = 1, hour = 1, minute = 30, second = 0,
          microsecond = 0, tzinfo = None\<rparr>"
proof -
  let ?s = "''2020-01-01T00:00:00-01:30''"
  from example_match obtain g where m: "match_datetime ?s = Some g"
    and "dtgroups g = [Some ''2020'', Some ''01'', Some ''01'', Some ''00'', Some ''00'',
       Some ''00'', None, Some ''-01:30'', Some ''-01'', Some ''30'']"
    by (auto simp: map_option_case split: option.splits)
  then have g: "g 8 = Some ''-01:30''" "g 9 = Some ''-01''" "g 10 = Some ''30''"
    by (simp_all add: dtgroups_eq)
  have ne: "''-01:30'' \<noteq> ''Z''" by simp
  from offset_zone[of ?s g "''-01:30''" None] m g(1) ne
  obtain sg hh off where
    g9: "g 9 = Some (sg # hh)"
    and off: "microseconds_to_delta ((if sg = CHR ''-'' then - 1 else 1)
        * (int (nat_of_digits hh) * 60 + int (component (g 10))) * 60000000) = Inr off"
    and tz: "tz_of_groups g None =
        Inr (Some \<lparr>offset = off, label = sg # hh @ '':'' @ str_or (g 10) ''00''\<rparr>)"
    and p: "parse_datetime (Str ?s) None =
     Inr \<lparr>year = 2020, month = 1, day = 1, hour = 1, minute = 30, second = 0,
          microsecond = 0, tzinfo = None\<rparr>"
    by blast
  from g9 g(2) have sg: "sg = CHR ''-''" and hh: "hh = ''01''" by simp_all
  have n: "nat_of_digits ''01'' = 1" by (simp add: nat_of_digits_def digit_val_def)
  from off have "off = \<lparr>days = - 1, seconds = 81000, microseconds = 0\<rparr>"
    by (simp add: sg hh n g(3) component_simps microseconds_to_delta_def)
  with tz have "tz_of_groups g None =
     Inr (Some \<lparr>offset = \<lparr>days = - 1, seconds = 81000, microseconds = 0\<rparr>,
                label = ''-01:30''\<rparr>)"
    by (simp add: sg hh g(3) str_or_def)
  with m p ne example_match show ?thesis by simp
qed

section \<open>Claim C1\<close>

lemma read_datetime_fields:
  assumes "read_datetime (Str s) tz_local = Inr dt"
  shows "\<exists>g. match_datetime s = Some g \<and> tz_of_groups g tz_local = Inr (tzinfo dt) \<and>
     int_group (g 1) = Inr (year dt) \<and> int_group (g 2) = Inr (month dt) \<and>
     int_or0 (g 3) = Inr (day dt) \<and> int_or0 (g 4) = Inr (hour dt) \<and>
     int_or0 (g 5) = Inr (minute dt) \<and> int_or0 (g 6) = Inr (second dt) \<and>
     py_int (take 6 (str_or (g 7) [] @ ''000000'')) = Inr (microsecond dt)"
proof (cases "match_datetime s")
  case None
  with assms show ?thesis by (simp add: read_datetime_def)
next
  case (Some g)
  from assms obtain tz y m d hh mm ss us where
    f: "tz_of_groups g tz_local = Inr tz" "int_group (g 1) = Inr y" "int_group (g 2) = Inr m"
      "int_or0 (g 3) = Inr d" "int_or0 (g 4) = Inr hh" "int_or0 (g 5) = Inr mm"
      "int_or0 (g 6) = Inr ss" "py_int (take 6 (str_or (g 7) [] @ ''000000'')) = Inr us"
    and dt: "datetime_new y m d hh mm ss us tz = Inr dt"
    unfolding read_datetime_def pyvalue.case Some option.case bind_Inr_iff by blast
  from dt have "dt = \<lparr>year = y, month = m, day = d, hour = hh, minute = mm, second = ss,
      microsecond = us, tzinfo = tz\<rparr>"
    by (auto simp: datetime_new_def split: if_splits)
  with f Some show ?thesis by simp
qed

text \<open>
  Claim C1: whenever \<^verbatim>\<open>parse_datetime\<close> returns a value, for a string that one of the
  two patterns matches or for a value that already is a timestamp, the value has no
  zone. It comes from the timestamp \<open>dt\<close> that the input denotes: a typed timestamp
  itself; for a string the timestamp with the fields of the match and with the zone of
  the text, which is the assumed local zone of the caller when the text has none and
  UTC for \<^verbatim>\<open>Z\<close>. If \<open>dt\<close> has a zone the result is \<open>dt\<close> minus the offset of its zone,
  that is its conversion to UTC, with the zone stripped; if \<open>dt\<close> has none, the result
  is \<open>dt\<close> unchanged.
\<close>

theorem parse_datetime_naive:
  assumes "parse_datetime v tz_local = Inr r"
  shows "tzinfo r = None \<and>
     (\<exists>dt. read_datetime v tz_local = Inr dt \<and>
        (\<forall>d. v = Datetime d \<longrightarrow> dt = d) \<and>
        (\<forall>s. v = Str s \<longrightarrow>
           (\<exists>g. match_datetime s = Some g \<and>
              int_group (g 1) = Inr (year dt) \<and> int_group (g 2) = Inr (month dt) \<and>
              int_or0 (g 3) = Inr (day dt) \<and> int_or0 (g 4) = Inr (hour dt) \<and>
              int_or0 (g 5) = Inr (minute dt) \<and> int_or0 (g 6) = Inr (second dt) \<and>
              py_int (take 6 (str_or (g 7) [] @ ''000000'')) = Inr (microsecond dt) \<and>
              tz_of_groups g tz_local = Inr (tzinfo dt) \<and>
              (g 8 = None \<longrightarrow> tzinfo dt = tz_local) \<and>
              (g 8 = Some ''Z'' \<longrightarrow> tzinfo dt = Some UTC))) \<and>
        (tzinfo dt = None \<longrightarrow> r = dt) \<and>
        (\<forall>z. tzinfo dt = Some z \<longrightarrow>
           (\<exists>u. datetime_sub dt (utcoffset z) = Inr u \<and> r = u\<lparr>tzinfo := None\<rparr>)))"
proof -
  from assms obtain dt where d: "read_datetime v tz_local = Inr dt"
    and n: "to_utc_naive dt = Inr r"
    unfolding parse_datetime_def bind_Inr_iff by blast
  note res = to_utc_naive_result[OF n]
  have 1: "\<forall>x. v = Datetime x \<longrightarrow> dt = x"
    using d by (auto simp: read_datetime_def)
  have 2: "\<exists>g. match_datetime s = Some g \<and>
              int_group (g 1) = Inr (year dt) \<and> int_group (g 2) = Inr (month dt) \<and>
              int_or0 (g 3) = Inr (day dt) \<and> int_or0 (g 4) = Inr (hour dt) \<and>
              int_or0 (g 5) = Inr (minute dt) \<and> int_or0 (g 6) = Inr (second dt) \<and>
              py_int (take 6 (str_or (g 7) [] @ ''000000'')) = Inr (microsecond dt) \<and>
              tz_of_groups g tz_local = Inr (tzinfo dt) \<and>
              (g 8 = None \<longrightarrow> tzinfo dt = tz_local) \<and>
              (g 8 = Some ''Z'' \<longrightarrow> tzinfo dt = Some UTC)"
    if "v = Str s" for s
  proof -
    from d that have "read_datetime (Str s) tz_local = Inr dt" by simp
    from read_datetime_fields[OF this] obtain g where
      g: "match_datetime s = Some g" "tz_of_groups g tz_local = Inr (tzinfo dt)"
      "int_group (g 1) = Inr (year dt)" "int_group (g 2) = Inr (month dt)"
      "int_or0 (g 3) = Inr (day dt)" "int_or0 (g 4) = Inr (hour dt)"
      "int_or0 (g 5) = Inr (minute dt)" "int_or0 (g 6) = Inr (second dt)"
      "py_int (take 6 (str_or (g 7) [] @ ''000000'')) = Inr (microsecond dt)"
      by blast
    have a: "g 8 = None \<longrightarrow> tzinfo dt = tz_local"
      using tz_of_groups_None[of g tz_local] g(2) by simp
    have b: "g 8 = Some ''Z'' \<longrightarrow> tzinfo dt = Some UTC"
      using tz_of_groups_Z[of g tz_local] g(2) by simp
    show ?thesis by (intro exI[of _ g] conjI) (fact g a b)+
  qed
  from res have 3: "tzinfo r = None" and 4: "tzinfo dt = None \<longrightarrow> r = dt"
    and 5: "\<forall>z. tzinfo dt = Some z \<longrightarrow>
           (\<exists>u. datetime_sub dt (utcoffset z) = Inr u \<and> r = u\<lparr>tzinfo := None\<rparr>)"
    by blast+
  from 2 have 6: "\<forall>s. v = Str s \<longrightarrow>
           (\<exists>g. match_datetime s = Some g \<and>
              int_group (g 1) = Inr (year dt) \<and> int_group (g 2) = Inr (month dt) \<and>
              int_or0 (g 3) = Inr (day dt) \<and> int_or0 (g 4) = Inr (hour dt) \<and>
              int_or0 (g 5) = Inr (minute dt) \<and> int_or0 (g 6) = Inr (second dt) \<and>
              py_int (take 6 (str_or (g 7) [] @ ''000000'')) = Inr (microsecond dt) \<and>
              tz_of_groups g tz_local = Inr (tzinfo dt) \<and>
              (g 8 = None \<longrightarrow> tzinfo dt = tz_local) \<and>
              (g 8 = Some ''Z'' \<longrightarrow> tzinfo dt = Some UTC))"
    by (intro allI impI)
  show ?thesis by (intro conjI exI[of _ dt]) (fact 3 d 1 6 4 5)+
qed

lemma example_sub_hour:
  "datetime_sub \<lparr>year = 2020, month = 1, day = 1, hour = 12, minute = 0, second = 0,
      microsecond = 0, tzinfo = Some tz\<rparr> \<lparr>days = 0, seconds = 3600, microseconds = 0\<rparr>
   = Inr \<lparr>year = 2020, month = 1, day = 1, hour = 11, minute = 0, second = 0,
      microsecond = 0, tzinfo = Some tz\<rparr>"
  by (simp add: datetime_sub_def timedelta_neg_def td_to_us_def microseconds_to_delta_def
      bind_def datetime_add_def datetime_to_us_def ymd2ord_def days_before_year_def
      days_before_month_def DAYS_BEFORE_MONTH_def is_leap_def MAXORDINAL_def ord2ymd_def
      DAYS_IN_MONTH_def Let_def)

lemma example_local_match:
  "map_option dtgroups (match_datetime ''2020-01-01T12:00:00'') =
     Some [Some ''2020'', Some ''01'', Some ''01'', Some ''12'', Some ''00'', Some ''00'', None,
       None, None, None]"
  by code_simp

lemma example_local_read:
  "read_datetime (Str ''2020-01-01T12:00:00'') tz_local =
     Inr \<lparr>year = 2020, month = 1, day = 1, hour = 12, minute = 0, second = 0,
          microsecond = 0, tzinfo = tz_local\<rparr>"
proof -
  from example_local_match obtain g where
    m: "match_datetime ''2020-01-01T12:00:00'' = Some g"
    and "dtgroups g = [Some ''2020'', Some ''01'', Some ''01'', Some ''12'', Some ''00'',
       Some ''00'', None, None, None, None]"
    by (auto simp: map_option_case split: option.splits)
  then have g: "g 1 = Some ''2020''" "g 2 = Some ''01''" "g 3 = Some ''01''"
    "g 4 = Some ''12''" "g 5 = Some ''00''" "g 6 = Some ''00''" "g 7 = None"
    "g 8 = None" "g 9 = None" "g 10 = None"
    by (simp_all add: dtgroups_eq)
  have g1: "g (Suc 0) = Some ''2020''" using g(1) by simp
  have i12: "py_int ''12'' = Inr 12"
    by (simp add: py_int_def all_digits_def digits_def nat_of_digits_def digit_val_def)
  have tz: "tz_of_groups g tz_local = Inr tz_local" using g(8) by (rule tz_of_groups_None)
  show ?thesis
    by (simp add: read_datetime_def m tz g g1 int_group_def int_or0_def example_ints i12
        str_or_def bind_def datetime_new_def MINYEAR_def MAXYEAR_def days_in_month_def
        DAYS_IN_MONTH_def)
qed

theorem parse_datetime_naive_witness:
  "parse_datetime
     (Datetime \<lparr>year = 2020, month = 1, day = 1, hour = 12, minute = 0, second = 0,
        microsecond = 0,
        tzinfo = Some \<lparr>offset = \<lparr>days = 0, seconds = 3600, microseconds = 0\<rparr>,
                        label = ''+01:00''\<rparr>\<rparr>) None =
     Inr \<lparr>year = 2020, month = 1, day = 1, hour = 11, minute = 0, second = 0,
          microsecond = 0, tzinfo = None\<rparr> \<and>
   datetime_sub
     \<lparr>year = 2020, month = 1, day = 1, hour = 12, minute = 0, second = 0,
        microsecond = 0,
        tzinfo = Some \<lparr>offset = \<lparr>days = 0, seconds = 3600, microseconds = 0\<rparr>,
                        label = ''+01:00''\<rparr>\<rparr>
     \<lparr>days = 0, seconds = 3600, microseconds = 0\<rparr> =
     Inr \<lparr>year = 2020, month = 1, day = 1, hour = 11, minute = 0, second = 0,
          microsecond = 0,
          tzinfo = Some \<lparr>offset = \<lparr>days = 0, seconds = 3600, microseconds = 0\<rparr>,
                          label = ''+01:00''\<rparr>\<rparr> \<and>
   parse_datetime (Str ''2020-01-01T12:00:00'')
     (Some \<lparr>offset = \<lparr>days = 0, seconds = 3600, microseconds = 0\<rparr>,
            label = ''+01:00''\<rparr>) =
     Inr \<lparr>year = 2020, month = 1, day = 1, hour = 11, minute = 0, second = 0,
          microsecond = 0, tzinfo = None\<rparr> \<and>
   parse_datetime (Str ''2020-01-01T12:00:00'') None =
     Inr \<lparr>year = 2020, month = 1, day = 1, hour = 12, minute = 0, second = 0,
          microsecond = 0, tzinfo = None\<rparr>"
proof -
  let ?z = "\<lparr>offset = \<lparr>days = 0, seconds = 3600, microseconds = 0\<rparr>, label = ''+01:00''\<rparr>"
  let ?x = "\<lparr>year = 2020, month = 1, day = 1, hour = 12, minute = 0, second = 0,
        microsecond = 0, tzinfo = Some ?z\<rparr>"
  let ?r = "\<lparr>year = 2020, month = 1, day = 1, hour = 11, minute = 0, second = 0,
          microsecond = 0, tzinfo = None :: TimeZone option\<rparr>"
  have p: "parse_datetime (Datetime ?x) None = Inr ?r"
    by (simp add: parse_datetime_def read_datetime_def bind_def to_utc_naive_aware
        utcoffset_def check_offset_def example_sub_hour)
  from parse_datetime_naive[OF p] obtain dt where
    d: "read_datetime (Datetime ?x) None = Inr dt"
    and z: "\<forall>z. tzinfo dt = Some z \<longrightarrow>
           (\<exists>u. datetime_sub dt (utcoffset z) = Inr u \<and> ?r = u\<lparr>tzinfo := None\<rparr>)"
    by blast
  from d have dt: "dt = ?x" by (simp add: read_datetime_def)
  from z obtain u where u: "datetime_sub ?x (utcoffset ?z) = Inr u" and r: "?r = u\<lparr>tzinfo := None\<rparr>"
    unfolding dt by auto
  from u have s: "datetime_sub ?x \<lparr>days = 0, seconds = 3600, microseconds = 0\<rparr> = Inr u"
    by (simp add: utcoffset_def)
  have l1: "parse_datetime (Str ''2020-01-01T12:00:00'') (Some ?z) = Inr ?r"
    by (simp add: parse_datetime_def example_local_read bind_def to_utc_naive_aware
        utcoffset_def check_offset_def example_sub_hour)
  have l2: "parse_datetime (Str ''2020-01-01T12:00:00'') None =
     Inr \<lparr>year = 2020, month = 1, day = 1, hour = 12, minute = 0, second = 0,
          microsecond = 0, tzinfo = None\<rparr>"
    by (simp add: parse_datetime_def example_local_read bind_def to_utc_naive_def)
  from p s l1 l2 example_sub_hour[of ?z] show ?thesis by simp
qed

section \<open>The error of a float operation\<close>

text \<open>One rounding of a number that is not negative: the relative error is at most
  \<open>2^-53\<close>, up to the spacing of the subnormal numbers.\<close>

lemma round_double_val:
  assumes "0 \<le> x"
  shows "\<exists>r. 0 \<le> r \<and> \<bar>r - x\<bar> \<le> x / 2 ^ 53 + 1 / 2 ^ 100 \<and>
     round_double x = (if pow2 1024 \<le> r then PInf else Fin r)"
proof (cases "x = 0")
  case True
  have "(0::rat) < pow2 1024" by (rule pow2_pos)
  then show ?thesis using True by (intro exI[of _ 0]) (simp add: round_double_def)
next
  case False
  with assms have x0: "0 < x" by simp
  define e where "e = max (ilog2 x) (- 1022)"
  define u where "u = pow2 (e - 52)"
  define r where "r = rat_of_int (round_half_even (x / u)) * u"
  have u0: "0 < u" by (simp add: u_def pow2_pos)
  have e_le: "pow2 e \<le> x + pow2 (- 1022)"
  proof (cases "- 1022 \<le> ilog2 x")
    case True
    then have "e = ilog2 x" by (simp add: e_def)
    then have "pow2 e \<le> x" using ilog2_lower[of x] x0 by simp
    moreover have "(0::rat) < pow2 (- 1022)" by (rule pow2_pos)
    ultimately show ?thesis by linarith
  next
    case False
    then have "e = - 1022" by (simp add: e_def)
    then show ?thesis using x0 by simp
  qed
  have small: "pow2 (- 1022) \<le> 1 / 2 ^ 47"
  proof -
    have "pow2 (- 1022) \<le> pow2 (- 47)" by (rule pow2_mono) simp
    also have "pow2 (- 47) = 1 / 2 ^ 47" by (simp add: pow2_def)
    finally show ?thesis .
  qed
  have uu: "u = pow2 e / 2 ^ 52" using pow2_diff[of e 52] by (simp add: u_def)
  have "\<bar>r - x\<bar> = \<bar>rat_of_int (round_half_even (x / u)) - x / u\<bar> * u"
  proof -
    have "r - x = (rat_of_int (round_half_even (x / u)) - x / u) * u"
      using u0 by (simp add: r_def field_simps)
    then show ?thesis using u0 by (simp add: abs_mult)
  qed
  also have "\<dots> \<le> 1 / 2 * u"
    using round_half_even_err[of "x / u"] u0 by (intro mult_right_mono) simp_all
  also have "\<dots> = pow2 e / 2 ^ 53" by (simp add: uu)
  also have "\<dots> \<le> (x + pow2 (- 1022)) / 2 ^ 53" using e_le by (simp add: divide_right_mono)
  also have "\<dots> = x / 2 ^ 53 + pow2 (- 1022) / 2 ^ 53" by (simp add: add_divide_distrib)
  also have "\<dots> \<le> x / 2 ^ 53 + 1 / 2 ^ 47 / 2 ^ 53"
    using small by (intro add_left_mono divide_right_mono) simp_all
  also have "\<dots> = x / 2 ^ 53 + 1 / 2 ^ 100" by simp
  finally have err: "\<bar>r - x\<bar> \<le> x / 2 ^ 53 + 1 / 2 ^ 100" .
  have "0 \<le> x / u" using x0 u0 by simp
  then have "0 \<le> round_half_even (x / u)" by (rule round_half_even_nonneg)
  then have r0: "0 \<le> r" using u0 by (simp add: r_def)
  have "round_double x = (if pow2 1024 \<le> r then PInf else Fin r)"
    using x0 r0
    by (simp add: round_double_def Let_def e_def[symmetric] u_def[symmetric] r_def[symmetric])
  with r0 err show ?thesis by blast
qed

lemma round_double_cases:
  assumes "0 \<le> x"
  shows "round_double x = PInf \<or>
     (\<exists>r. round_double x = Fin r \<and> 0 \<le> r \<and> \<bar>r - x\<bar> \<le> x / 2 ^ 53 + 1 / 2 ^ 100)"
  using round_double_val[OF assms] by (auto split: if_splits)

lemma round_double_Fin:
  assumes "0 \<le> x" and "round_double x = Fin r"
  shows "0 \<le> r \<and> \<bar>r - x\<bar> \<le> x / 2 ^ 53 + 1 / 2 ^ 100"
  using round_double_cases[OF assms(1)] assms(2) by auto

lemma round_double_fin:
  assumes "0 \<le> x" and "x \<le> 2 ^ 80"
  shows "\<exists>r. round_double x = Fin r"
proof -
  from round_double_val[OF assms(1)] obtain r where r: "0 \<le> r"
    and e: "\<bar>r - x\<bar> \<le> x / 2 ^ 53 + 1 / 2 ^ 100"
    and v: "round_double x = (if pow2 1024 \<le> r then PInf else Fin r)"
    by blast
  have "x / 2 ^ 53 \<le> x" using assms(1) by (simp add: field_simps)
  with e have "r \<le> 2 * x + 1" by (simp add: abs_le_iff)
  also have "\<dots> \<le> 2 * 2 ^ 80 + 1" using assms(2) by simp
  also have "\<dots> < (2::rat) ^ 82" by simp
  also have "(2::rat) ^ 82 = pow2 82" by (simp add: pow2_def)
  also have "pow2 82 \<le> pow2 1024" by (rule pow2_mono) simp
  finally have "\<not> pow2 1024 \<le> r" by simp
  with v show ?thesis by simp
qed

lemma abs_le_I: "y - e \<le> x \<Longrightarrow> x \<le> y + e \<Longrightarrow> \<bar>x - y\<bar> \<le> (e::rat)"
  by linarith

lemma scaled_err:
  fixes c q k :: rat
  assumes "0 \<le> q" and "1 \<le> k" and "k \<le> 3600"
    and "\<bar>c - q\<bar> \<le> q / 2 ^ 53 + 1 / 2 ^ 100"
  shows "\<bar>c * k - q * k\<bar> \<le> q * k / 2 ^ 53 + 3600 / 2 ^ 100"
proof -
  have k0: "0 \<le> k" using assms(2) by simp
  have "\<bar>c * k - q * k\<bar> = \<bar>c - q\<bar> * k"
    using k0 by (simp add: abs_mult left_diff_distrib[symmetric])
  also have "\<dots> \<le> (q / 2 ^ 53 + 1 / 2 ^ 100) * k"
    using assms(4) k0 by (rule mult_right_mono)
  also have "\<dots> = q * k / 2 ^ 53 + k / 2 ^ 100" by (simp add: algebra_simps)
  also have "\<dots> \<le> q * k / 2 ^ 53 + 3600 / 2 ^ 100"
    using assms(3) by (intro add_left_mono divide_right_mono) simp_all
  finally show ?thesis .
qed

text \<open>
  The sum of three components with their weights, as \<^verbatim>\<open>parse_duration\<close> computes it
  in floats: four roundings on the way from the exact numbers.
\<close>

lemma weighted_core:
  fixes q1 q2 q3 k2 k3 :: rat
  assumes q: "0 \<le> q1" "0 \<le> q2" "0 \<le> q3"
    and k: "1 \<le> k2" "k2 \<le> 3600" "1 \<le> k3" "k3 \<le> 3600"
    and c1: "round_double q1 = Fin c1" and c2: "round_double q2 = Fin c2"
    and c3: "round_double q3 = Fin c3"
    and m2: "round_double (c2 * k2) = Fin m2" and m3: "round_double (c3 * k3) = Fin m3"
    and s1: "round_double (c1 + m2) = Fin s1" and r: "round_double (s1 + m3) = Fin r"
  shows "0 \<le> r \<and>
     \<bar>r - (q1 + q2 * k2 + q3 * k3)\<bar> \<le> (q1 + q2 * k2 + q3 * k3) / 2 ^ 50 + 1 / 2 ^ 86"
proof -
  define w2 where "w2 = q2 * k2"
  define w3 where "w3 = q3 * k3"
  define p2 where "p2 = c2 * k2"
  define p3 where "p3 = c3 * k3"
  have w: "0 \<le> w2" "0 \<le> w3" using q k by (simp_all add: w2_def w3_def)
  note e1 = round_double_Fin[OF q(1) c1]
  note e2 = round_double_Fin[OF q(2) c2]
  note e3 = round_double_Fin[OF q(3) c3]
  have p0: "0 \<le> p2" "0 \<le> p3" using e2 e3 k by (simp_all add: p2_def p3_def)
  have P2: "\<bar>p2 - w2\<bar> \<le> w2 / 2 ^ 53 + 3600 / 2 ^ 100"
    unfolding p2_def w2_def using q(2) k(1,2) e2 by (intro scaled_err) simp_all
  have P3: "\<bar>p3 - w3\<bar> \<le> w3 / 2 ^ 53 + 3600 / 2 ^ 100"
    unfolding p3_def w3_def using q(3) k(3,4) e3 by (intro scaled_err) simp_all
  note f2 = round_double_Fin[OF p0(1) m2[folded p2_def]]
  note f3 = round_double_Fin[OF p0(2) m3[folded p3_def]]
  have M2: "\<bar>m2 - w2\<bar> \<le> 3 * w2 / 2 ^ 53 + 4000 / 2 ^ 100"
    using P2 f2 w(1) by (simp add: abs_le_iff)
  have M3: "\<bar>m3 - w3\<bar> \<le> 3 * w3 / 2 ^ 53 + 4000 / 2 ^ 100"
    using P3 f3 w(2) by (simp add: abs_le_iff)
  have a0: "0 \<le> c1 + m2" using e1 f2 by simp
  note g1 = round_double_Fin[OF a0 s1]
  have S1: "\<bar>s1 - (q1 + w2)\<bar> \<le> 5 * (q1 + w2) / 2 ^ 53 + 5000 / 2 ^ 100"
    using e1 M2 g1 q(1) w(1) by (auto simp: abs_le_iff add_divide_distrib)
  have b0: "0 \<le> s1 + m3" using g1 f3 by simp
  note g2 = round_double_Fin[OF b0 r]
  have R: "\<bar>r - (q1 + w2 + w3)\<bar> \<le> 7 * (q1 + w2 + w3) / 2 ^ 53 + 10000 / 2 ^ 100"
    using S1 M3 g2 q(1) w by (auto simp: abs_le_iff add_divide_distrib)
  have "7 * (q1 + w2 + w3) / 2 ^ 53 + 10000 / 2 ^ 100 \<le> (q1 + w2 + w3) / 2 ^ 50 + 1 / 2 ^ 86"
    using q(1) w by (simp add: add_divide_distrib)
  with R have "\<bar>r - (q1 + w2 + w3)\<bar> \<le> (q1 + w2 + w3) / 2 ^ 50 + 1 / 2 ^ 86"
    by (rule order_trans)
  with g2 show ?thesis by (simp add: w2_def w3_def)
qed

lemma weighted_err:
  fixes q1 q2 q3 k2 k3 :: rat
  assumes q: "0 \<le> q1" "0 \<le> q2" "0 \<le> q3"
    and k: "1 \<le> k2" "k2 \<le> 3600" "1 \<le> k3" "k3 \<le> 3600"
    and v: "fadd (fadd (round_double q1) (fmul (round_double q2) (Fin k2)))
              (fmul (round_double q3) (Fin k3)) = Fin r"
  shows "0 \<le> r \<and>
     \<bar>r - (q1 + q2 * k2 + q3 * k3)\<bar> \<le> (q1 + q2 * k2 + q3 * k3) / 2 ^ 50 + 1 / 2 ^ 86"
proof -
  obtain c1 where c1: "round_double q1 = Fin c1"
    using v by (cases "round_double q1") (simp_all add: fadd_def)
  obtain c2 where c2: "round_double q2 = Fin c2"
    using v by (cases "round_double q2") (simp_all add: fadd_def fmul_def c1)
  obtain c3 where c3: "round_double q3 = Fin c3"
    using v by (cases "round_double q3") (simp_all add: fadd_def fmul_def split: pyfloat.splits)
  obtain m2 where m2: "round_double (c2 * k2) = Fin m2"
    using v by (cases "round_double (c2 * k2)") (simp_all add: fadd_def fmul_def c1 c2)
  obtain m3 where m3: "round_double (c3 * k3) = Fin m3"
    using v
    by (cases "round_double (c3 * k3)") (simp_all add: fadd_def fmul_def c3 split: pyfloat.splits)
  obtain s1 where s1: "round_double (c1 + m2) = Fin s1"
    using v by (cases "round_double (c1 + m2)") (simp_all add: fadd_def fmul_def c1 c2 m2)
  have r: "round_double (s1 + m3) = Fin r"
    using v by (simp add: fadd_def fmul_def c1 c2 c3 m2 m3 s1)
  show ?thesis using q k c1 c2 c3 m2 m3 s1 r by (rule weighted_core)
qed

lemma round_double_le:
  assumes "0 \<le> x" and "x \<le> 2 ^ 80"
  shows "\<exists>r. round_double x = Fin r \<and> 0 \<le> r \<and> r \<le> 2 * x + 1"
proof -
  from round_double_fin[OF assms] obtain r where r: "round_double x = Fin r" by blast
  from round_double_Fin[OF assms(1) r] have r0: "0 \<le> r"
    and e: "\<bar>r - x\<bar> \<le> x / 2 ^ 53 + 1 / 2 ^ 100" by simp_all
  have "x / 2 ^ 53 \<le> x" using assms(1) by (simp add: field_simps)
  with e have "r \<le> 2 * x + 1" by (simp add: abs_le_iff)
  with r r0 show ?thesis by blast
qed

lemma weighted_fin:
  fixes q1 q2 q3 k2 k3 :: rat
  assumes q: "0 \<le> q1" "0 \<le> q2" "0 \<le> q3"
    and k: "1 \<le> k2" "k2 \<le> 3600" "1 \<le> k3" "k3 \<le> 3600"
    and T: "q1 + q2 * k2 + q3 * k3 \<le> 2 ^ 70"
  shows "\<exists>r. fadd (fadd (round_double q1) (fmul (round_double q2) (Fin k2)))
              (fmul (round_double q3) (Fin k3)) = Fin r"
proof -
  define w2 where "w2 = q2 * k2"
  define w3 where "w3 = q3 * k3"
  have w: "0 \<le> w2" "0 \<le> w3" using q k by (simp_all add: w2_def w3_def)
  have T': "q1 + w2 + w3 \<le> 2 ^ 70" using T by (simp add: w2_def w3_def)
  have "q2 * 1 \<le> q2 * k2" using q(2) k(1) by (intro mult_left_mono) simp_all
  then have q2: "q2 \<le> w2" by (simp add: w2_def)
  have "q3 * 1 \<le> q3 * k3" using q(3) k(3) by (intro mult_left_mono) simp_all
  then have q3: "q3 \<le> w3" by (simp add: w3_def)
  obtain c1 where c1: "round_double q1 = Fin c1" "0 \<le> c1" "c1 \<le> 2 * q1 + 1"
    using round_double_le[of q1] q(1) w T' by auto
  obtain c2 where c2: "round_double q2 = Fin c2" "0 \<le> c2" "c2 \<le> 2 * q2 + 1"
    using round_double_le[of q2] q q2 w T' by auto
  obtain c3 where c3: "round_double q3 = Fin c3" "0 \<le> c3" "c3 \<le> 2 * q3 + 1"
    using round_double_le[of q3] q q3 w T' by auto
  have p2: "0 \<le> c2 * k2" "c2 * k2 \<le> 2 * w2 + 3600"
  proof -
    show "0 \<le> c2 * k2" using c2(2) k(1) by simp
    have "c2 * k2 \<le> (2 * q2 + 1) * k2" using c2(3) k(1) by (intro mult_right_mono) simp_all
    also have "\<dots> = 2 * w2 + k2" by (simp add: w2_def algebra_simps)
    finally show "c2 * k2 \<le> 2 * w2 + 3600" using k(2) by simp
  qed
  have p3: "0 \<le> c3 * k3" "c3 * k3 \<le> 2 * w3 + 3600"
  proof -
    show "0 \<le> c3 * k3" using c3(2) k(3) by simp
    have "c3 * k3 \<le> (2 * q3 + 1) * k3" using c3(3) k(3) by (intro mult_right_mono) simp_all
    also have "\<dots> = 2 * w3 + k3" by (simp add: w3_def algebra_simps)
    finally show "c3 * k3 \<le> 2 * w3 + 3600" using k(4) by simp
  qed
  obtain m2 where m2: "round_double (c2 * k2) = Fin m2" "0 \<le> m2" "m2 \<le> 2 * (c2 * k2) + 1"
    using round_double_le[of "c2 * k2"] p2 q(1) w T' by auto
  obtain m3 where m3: "round_double (c3 * k3) = Fin m3" "0 \<le> m3" "m3 \<le> 2 * (c3 * k3) + 1"
    using round_double_le[of "c3 * k3"] p3 q(1) w T' by auto
  obtain s1 where s1: "round_double (c1 + m2) = Fin s1" "0 \<le> s1" "s1 \<le> 2 * (c1 + m2) + 1"
    using round_double_le[of "c1 + m2"] c1 m2 p2 q(1) w T' by auto
  obtain r where r: "round_double (s1 + m3) = Fin r"
    using round_double_fin[of "s1 + m3"] s1 m3 c1 m2 p2 p3 q(1) w T' by auto
  show ?thesis
    by (simp add: fadd_def fmul_def c1(1) c2(1) c3(1) m2(1) m3(1) s1(1) r)
qed

section \<open>The error of the constructor of timedelta\<close>

lemma modf_pos: "0 \<le> x \<Longrightarrow> modf x = (x - of_int \<lfloor>x\<rfloor>, \<lfloor>x\<rfloor>)"
  by (simp add: modf_def Let_def)

lemma frac_bounds: "0 \<le> x - rat_of_int \<lfloor>x\<rfloor> \<and> x - rat_of_int \<lfloor>x\<rfloor> < 1"
  by linarith

text \<open>
  One float argument of the constructor: the whole part goes into the sum exactly, the
  fraction times the factor is rounded once, its whole part goes into the sum and its
  fraction is added to the leftover with one more rounding.
\<close>

lemma accum_err:
  fixes f l :: rat
  assumes f: "0 \<le> f" and l: "0 \<le> l" "l \<le> 2"
    and k: "0 < factor" "factor \<le> 86400000000"
  shows "\<exists>x' l'. accum sofar (Fin f) factor (Fin l) = Inr (x', Fin l') \<and> 0 \<le> l' \<and>
     l' \<le> l + 1 + 1 / 2 ^ 40 \<and>
     \<bar>of_int x' + l' - (of_int sofar + l + of_int factor * f)\<bar>
       \<le> of_int factor / 2 ^ 53 + 1 / 2 ^ 50"
proof -
  define i where "i = \<lfloor>f\<rfloor>"
  define fr where "fr = f - of_int i"
  define K :: rat where "K = of_int factor"
  have K: "0 < K" "K \<le> 86400000000" using k by (simp_all add: K_def)
  have fr: "0 \<le> fr" "fr < 1" using frac_bounds[of f] by (simp_all add: fr_def i_def)
  have mf: "modf f = (fr, i)" using modf_pos[OF f] by (simp add: fr_def i_def)
  have fe: "f = of_int i + fr" by (simp add: fr_def)
  show ?thesis
  proof (cases "fr = 0")
    case True
    have a: "accum sofar (Fin f) factor (Fin l) = Inr (sofar + i * factor, Fin l)"
      by (simp add: accum_def mf True)
    have "of_int (sofar + i * factor) + l - (of_int sofar + l + of_int factor * f) = 0"
      using True by (simp add: fe)
    then have "\<bar>of_int (sofar + i * factor) + l - (of_int sofar + l + of_int factor * f)\<bar>
        \<le> of_int factor / 2 ^ 53 + 1 / 2 ^ 50"
      using K by (simp add: K_def)
    with a l show ?thesis by (intro exI[of _ "sofar + i * factor"] exI[of _ l]) simp
  next
    case False
    define P where "P = K * fr"
    have P: "0 \<le> P" "P \<le> 86400000000"
    proof -
      show "0 \<le> P" using K fr by (simp add: P_def)
      have "K * fr \<le> K" using K fr by (intro mult_left_le) simp_all
      with K(2) show "P \<le> 86400000000" unfolding P_def by linarith
    qed
    have rk: "round_double (of_int factor) = Fin K"
      unfolding K_def using k by (intro round_double_int) simp
    from round_double_fin[of P] P obtain g where g: "round_double P = Fin g" by auto
    note ge = round_double_Fin[OF P(1) g]
    define ig where "ig = \<lfloor>g\<rfloor>"
    define fg where "fg = g - of_int ig"
    have fg: "0 \<le> fg" "fg < 1" using frac_bounds[of g] by (simp_all add: fg_def ig_def)
    have mg: "modf g = (fg, ig)" using modf_pos[of g] ge by (simp add: fg_def ig_def)
    have lf: "0 \<le> l + fg" "l + fg \<le> 2 ^ 80" using l fg by simp_all
    from round_double_fin[OF lf] obtain l' where l': "round_double (l + fg) = Fin l'" by blast
    note le = round_double_Fin[OF lf(1) l']
    have a: "accum sofar (Fin f) factor (Fin l) = Inr (sofar + i * factor + ig, Fin l')"
      using False
      by (simp add: accum_def mf rk fmul_def P_def[symmetric] g mg fadd_def l')
    have eq: "of_int (sofar + i * factor + ig) + l' - (of_int sofar + l + of_int factor * f)
        = (g - P) + (l' - (l + fg))"
      by (simp add: fe fg_def P_def K_def algebra_simps)
    have b1: "\<bar>g - P\<bar> \<le> K / 2 ^ 53 + 1 / 2 ^ 100"
    proof -
      have "P / 2 ^ 53 \<le> K / 2 ^ 53"
        using fr K by (simp add: P_def divide_right_mono mult_left_le)
      with ge show ?thesis by linarith
    qed
    have b2: "\<bar>l' - (l + fg)\<bar> \<le> 3 / 2 ^ 53 + 1 / 2 ^ 100"
    proof -
      have "(l + fg) / 2 ^ 53 \<le> 3 / 2 ^ 53" using l fg by (simp add: divide_right_mono)
      with le show ?thesis by linarith
    qed
    have "\<bar>(g - P) + (l' - (l + fg))\<bar> \<le> K / 2 ^ 53 + 1 / 2 ^ 50"
      using b1 b2 unfolding abs_le_iff by (auto simp: add_divide_distrib)
    then have e: "\<bar>of_int (sofar + i * factor + ig) + l' - (of_int sofar + l + of_int factor * f)\<bar>
        \<le> of_int factor / 2 ^ 53 + 1 / 2 ^ 50"
      unfolding eq by (simp add: K_def)
    have u: "l' \<le> l + 1 + 1 / 2 ^ 40"
      using b2 fg unfolding abs_le_iff by (auto simp: add_divide_distrib)
    from a le u e show ?thesis
      by (intro exI[of _ "sofar + i * factor + ig"] exI[of _ l']) simp
  qed
qed

text \<open>The final rounding of the leftover: to a nearest whole number.\<close>

lemma round_leftover_err:
  fixes l :: rat
  assumes "0 \<le> l"
  shows "\<exists>y. round_leftover x (Fin l) = Inr y \<and> \<bar>of_int y - (of_int x + l)\<bar> \<le> 1 / 2"
proof (cases "l = 0")
  case True
  then show ?thesis by (simp add: round_leftover_def)
next
  case False
  define w where "w = \<lfloor>l + 1 / 2\<rfloor>"
  have cw: "c_round l = w" using assms by (simp add: c_round_def w_def)
  have wb: "of_int w \<le> l + 1 / 2" "l + 1 / 2 < of_int w + 1"
    unfolding w_def by linarith+
  show ?thesis
  proof (cases "\<bar>of_int w - l\<bar> = 1 / 2")
    case nt: False
    have "round_leftover x (Fin l) = Inr (x + w)"
      using False nt by (simp add: round_leftover_def cw Let_def)
    moreover have "\<bar>of_int (x + w) - (of_int x + l)\<bar> \<le> 1 / 2"
    proof -
      have "of_int (x + w) - (of_int x + l) = of_int w - l" by simp
      with wb show ?thesis by linarith
    qed
    ultimately show ?thesis by blast
  next
    case True
    with wb have le: "l = of_int w - 1 / 2" by linarith
    define o' :: int where "o' = (if odd x then 1 else 0)"
    have o: "o' = 0 \<or> o' = 1" by (simp add: o'_def)
    define z where "z = (l + of_int o') * (1 / 2)"
    have z0: "0 \<le> z" using assms o by (auto simp: z_def)
    have "z + 1 / 2 = of_int (2 * w + 2 * o' + 1) / of_int 4"
      by (simp add: z_def le add_divide_distrib diff_divide_distrib)
    then have "\<lfloor>z + 1 / 2\<rfloor> = (2 * w + 2 * o' + 1) div 4"
      by (simp only: floor_divide_of_int_eq)
    then have cz: "c_round z = (2 * w + 2 * o' + 1) div 4" using z0 by (simp add: c_round_def)
    have cz': "c_round ((l + of_int o') / 2) = (2 * w + 2 * o' + 1) div 4"
      using cz by (simp add: z_def)
    define y where "y = x + (2 * ((2 * w + 2 * o' + 1) div 4) - o')"
    have r: "round_leftover x (Fin l) = Inr y"
      using False True
      by (simp add: round_leftover_def cw Let_def o'_def[symmetric] cz' y_def)
    have "y - x = w \<or> y - x = w - 1" using o unfolding y_def by presburger
    then have "of_int y - (of_int x + l) = 1 / 2 \<or> of_int y - (of_int x + l) = - 1 / 2"
    proof
      assume "y - x = w"
      then have "y = x + w" by simp
      then show ?thesis by (simp add: le)
    next
      assume "y - x = w - 1"
      then have "y = x + w - 1" by simp
      then show ?thesis by (simp add: le)
    qed
    then have "\<bar>of_int y - (of_int x + l)\<bar> \<le> 1 / 2" by auto
    with r show ?thesis by blast
  qed
qed

lemma timedelta_of_floats_err:
  fixes dd f :: rat
  assumes "0 \<le> dd" and "0 \<le> f"
  shows "\<exists>y. timedelta_of_floats (Fin dd) (Fin f) = microseconds_to_delta y \<and>
     \<bar>of_int y - (1000000 * f + 86400000000 * dd)\<bar> \<le> 1 / 2 + 1 / 2 ^ 16"
proof -
  from accum_err[of f 0 us_per_second 0] assms(2) obtain x1 l1 where
    a1: "accum 0 (Fin f) us_per_second (Fin 0) = Inr (x1, Fin l1)"
    and l1: "0 \<le> l1" "l1 \<le> 1 + 1 / 2 ^ 40"
    and e1: "\<bar>of_int x1 + l1 - 1000000 * f\<bar> \<le> 1000000 / 2 ^ 53 + 1 / 2 ^ 50"
    by (auto simp: us_per_second_def)
  have l12: "l1 \<le> 2" using l1(2) by simp
  from accum_err[of dd l1 us_per_day x1] assms(1) l1(1) l12 obtain x2 l2 where
    a2: "accum x1 (Fin dd) us_per_day (Fin l1) = Inr (x2, Fin l2)"
    and l2: "0 \<le> l2"
    and e2: "\<bar>of_int x2 + l2 - (of_int x1 + l1 + 86400000000 * dd)\<bar>
        \<le> 86400000000 / 2 ^ 53 + 1 / 2 ^ 50"
    by (auto simp: us_per_day_def)
  from round_leftover_err[OF l2, of x2] obtain y where
    y: "round_leftover x2 (Fin l2) = Inr y"
    and e3: "\<bar>of_int y - (of_int x2 + l2)\<bar> \<le> 1 / 2"
    by blast
  have t: "timedelta_of_floats (Fin dd) (Fin f) = microseconds_to_delta y"
    by (simp add: timedelta_of_floats_def a1 a2 y bind_def)
  have "\<bar>of_int y - (1000000 * f + 86400000000 * dd)\<bar> \<le> 1 / 2 + 1 / 2 ^ 16"
    using e1 e2 e3 unfolding abs_le_iff by (auto simp: add_divide_distrib)
  with t show ?thesis by blast
qed

lemma timedelta_of_floats_Inr:
  assumes "timedelta_of_floats d s = Inr t"
  shows "\<exists>dd f. d = Fin dd \<and> s = Fin f"
proof (cases s)
  case PInf
  with assms show ?thesis by (simp add: timedelta_of_floats_def accum_def bind_def)
next
  case (Fin f)
  show ?thesis
  proof (cases d)
    case d: PInf
    from assms show ?thesis
      unfolding timedelta_of_floats_def d
      by (auto simp: bind_Inr_iff accum_def)
  next
    case (Fin dd)
    with \<open>s = Fin f\<close> show ?thesis by simp
  qed
qed

section \<open>The number of a component\<close>

lemma quantity_nonneg: "0 \<le> quantity g"
  by (cases g) (simp_all add: quantity_def Let_def)

lemma quantity_None: "quantity None = 0"
  by (simp add: quantity_def)

lemma float_or0_quantity:
  assumes "float_or0 g = Inr c"
  shows "c = round_double (quantity g)"
proof (cases g)
  case None
  with assms show ?thesis by (simp add: float_or0_def quantity_def round_double_def)
next
  case (Some s)
  let ?P = "\<lambda>c. c \<noteq> CHR ''.''"
  let ?ip = "takeWhile ?P s"
  have dw: "dropWhile ?P s = drop (length ?ip) s" by (rule dropWhile_eq_drop)
  have tl: "tl (dropWhile ?P s) = drop (Suc (length ?ip)) s"
    by (simp add: dw drop_Suc tl_drop)
  show ?thesis
  proof (cases "s = []")
    case True
    with assms Some show ?thesis
      by (simp add: float_or0_def quantity_def round_double_def nat_of_digits_def)
  next
    case False
    with assms Some have p: "py_float s = Inr c" by (simp add: float_or0_def)
    show ?thesis
    proof (cases "dropWhile ?P s = []")
      case True
      then have "tl (dropWhile ?P s) = []" by (simp only: list.sel)
      with tl have "drop (Suc (length ?ip)) s = []" by (simp only:)
      moreover from p True have "c = round_double (decimal_value ?ip [])"
        by (auto simp: py_float_def Let_def split: if_splits)
      ultimately show ?thesis
        using Some by (simp add: quantity_def Let_def decimal_value_def)
    next
      case False
      with p have "c = round_double (decimal_value ?ip (tl (dropWhile ?P s)))"
        by (auto simp: py_float_def Let_def split: if_splits)
      then show ?thesis
        using Some by (simp add: quantity_def Let_def decimal_value_def tl)
    qed
  qed
qed

lemma quantity_whole: "whole g \<Longrightarrow> quantity g = of_nat (component g)"
proof (cases g)
  case None
  then show ?thesis by (simp add: quantity_def component_def)
next
  case (Some ds)
  assume "whole g"
  with Some have a: "all_digits ds" by (simp add: whole_def)
  have tw: "takeWhile (\<lambda>c. c \<noteq> CHR ''.'') ds = ds" using a by (rule all_digits_no_dot)
  show ?thesis
    using Some by (simp add: quantity_def component_def Let_def tw nat_of_digits_def)
qed

section \<open>The groups of a duration match are numbers\<close>

lemma in_digits1:
  assumes "(t, c') \<in> set (rmatch (Rep digits 1 None) s c)"
  shows "c' = c \<and> (\<exists>ds. all_digits ds \<and> s = ds @ t)"
proof -
  let ?P = "\<lambda>x. x \<in> set digits"
  from assms obtain k where k: "1 \<le> k" "k \<le> length (takeWhile ?P s)"
    and t: "t = drop k s" and c: "c' = c"
    by (auto simp: rep_counts_def Let_def)
  have ls: "length (takeWhile ?P s) \<le> length s" by (rule length_takeWhile_le)
  have "take k s = take k (takeWhile ?P s)"
  proof -
    have "s = takeWhile ?P s @ dropWhile ?P s" by simp
    then have "take k s = take k (takeWhile ?P s @ dropWhile ?P s)" by simp
    also have "\<dots> = take k (takeWhile ?P s)" using k(2) by (simp del: takeWhile_dropWhile_id)
    finally show ?thesis .
  qed
  then have "set (take k s) \<subseteq> set (takeWhile ?P s)" by (simp add: set_take_subset)
  then have "\<forall>x\<in>set (take k s). x \<in> set digits" by (auto dest: set_takeWhileD)
  moreover have "take k s \<noteq> []" using k ls by auto
  ultimately have "all_digits (take k s)" by (simp add: all_digits_def list_all_iff)
  moreover have "s = take k s @ t" by (simp add: t)
  ultimately show ?thesis using c by blast
qed

lemma in_num:
  assumes "(t, c') \<in> set (rmatch (num i) s c)"
  shows "\<exists>ip. all_digits ip \<and>
     ((s = ip @ t \<and> c' = c(i \<mapsto> ip)) \<or>
      (\<exists>fp. all_digits fp \<and> s = ip @ CHR ''.'' # fp @ t \<and>
         c' = c(Suc i \<mapsto> CHR ''.'' # fp, i \<mapsto> ip @ CHR ''.'' # fp)))"
proof -
  let ?frac = "Grp (Suc i) (Seq (Chr CHR ''.'') (Rep digits 1 None))"
  from assms obtain c1 where
    m: "(t, c1) \<in> set (rmatch (Seq (Rep digits 1 None) (Opt ?frac)) s c)"
    and c': "c' = c1(i \<mapsto> take (length s - length t) s)"
    unfolding num_def by (auto simp only: in_Grp)
  from m obtain t1 c0 where d: "(t1, c0) \<in> set (rmatch (Rep digits 1 None) s c)"
    and o: "(t, c1) \<in> set (rmatch (Opt ?frac) t1 c0)"
    by (auto simp only: in_Seq)
  from in_digits1[OF d] obtain ip where c0: "c0 = c" and ip: "all_digits ip" and s: "s = ip @ t1"
    by blast
  from o have "(t, c1) \<in> set (rmatch ?frac t1 c0) \<or> (t = t1 \<and> c1 = c0)"
    by (simp only: in_Opt)
  then show ?thesis
  proof
    assume "t = t1 \<and> c1 = c0"
    then have "s = ip @ t" "c' = c(i \<mapsto> ip)" using s c' c0 by simp_all
    with ip show ?thesis by blast
  next
    assume "(t, c1) \<in> set (rmatch ?frac t1 c0)"
    then obtain c2 where
      f: "(t, c2) \<in> set (rmatch (Seq (Chr CHR ''.'') (Rep digits 1 None)) t1 c0)"
      and c1: "c1 = c2(Suc i \<mapsto> take (length t1 - length t) t1)"
      by (auto simp only: in_Grp)
    from f obtain t2 c3 where p: "(t2, c3) \<in> set (rmatch (Chr CHR ''.'') t1 c0)"
      and r: "(t, c2) \<in> set (rmatch (Rep digits 1 None) t2 c3)"
      by (auto simp only: in_Seq)
    from p have t1: "t1 = CHR ''.'' # t2" and c3: "c3 = c0" by (simp_all only: in_Chr)
    from in_digits1[OF r] obtain fp where c2: "c2 = c3" and fp: "all_digits fp"
      and t2: "t2 = fp @ t"
      by blast
    have "s = ip @ CHR ''.'' # fp @ t" using s t1 t2 by simp
    moreover have "c' = c(Suc i \<mapsto> CHR ''.'' # fp, i \<mapsto> ip @ CHR ''.'' # fp)"
      using c' c1 c2 c3 c0 s t1 t2 by simp
    ultimately show ?thesis using ip fp by blast
  qed
qed

lemma float_or0_whole: "all_digits ip \<Longrightarrow> \<exists>v. float_or0 (Some ip) = Inr v"
proof -
  assume a: "all_digits ip"
  have tw: "takeWhile (\<lambda>c. c \<noteq> CHR ''.'') ip = ip" using a by (rule all_digits_no_dot)
  have dw: "dropWhile (\<lambda>c. c \<noteq> CHR ''.'') ip = []"
    using takeWhile_dropWhile_id[of "\<lambda>c. c \<noteq> CHR ''.''" ip] tw by simp
  have "ip \<noteq> []" using a by (simp add: all_digits_def)
  then show ?thesis by (simp add: float_or0_def py_float_def Let_def tw dw a)
qed

lemma takeWhile_dot:
  assumes "all_digits ip"
  shows "takeWhile (\<lambda>c. c \<noteq> CHR ''.'') (ip @ CHR ''.'' # fp) = ip"
    and "dropWhile (\<lambda>c. c \<noteq> CHR ''.'') (ip @ CHR ''.'' # fp) = CHR ''.'' # fp"
proof -
  have "\<forall>c\<in>set ip. c \<noteq> CHR ''.''"
    using all_digits_set[OF assms] dot_not_digit by blast
  then show "takeWhile (\<lambda>c. c \<noteq> CHR ''.'') (ip @ CHR ''.'' # fp) = ip"
    and "dropWhile (\<lambda>c. c \<noteq> CHR ''.'') (ip @ CHR ''.'' # fp) = CHR ''.'' # fp"
    by (simp_all add: takeWhile_append2 dropWhile_append2)
qed

lemma float_or0_frac:
  assumes "all_digits ip" and "all_digits fp"
  shows "\<exists>v. float_or0 (Some (ip @ CHR ''.'' # fp)) = Inr v"
  by (simp add: float_or0_def py_float_def Let_def takeWhile_dot[OF assms(1)] assms)

lemma comp_groups: "groups (comp i x) = {i, Suc i}"
  by (auto simp: comp_def num_def)

lemma comp_readable:
  assumes m: "(t, c') \<in> set (rmatch (comp j x) s c)"
    and i: "i \<noteq> Suc j"
    and r: "\<exists>v. float_or0 (c i) = Inr v"
  shows "\<exists>v. float_or0 (c' i) = Inr v"
proof (cases "i = j")
  case False
  with i have "i \<notin> groups (comp j x)" by (simp add: comp_groups)
  from rmatch_frame[OF m this] r show ?thesis by simp
next
  case True
  from m have "(t, c') \<in> set (rmatch (Seq (num j) (Chr x)) s c) \<or> (t = s \<and> c' = c)"
    unfolding comp_def by (simp only: in_Opt)
  then show ?thesis
  proof
    assume "t = s \<and> c' = c"
    with r show ?thesis by simp
  next
    assume "(t, c') \<in> set (rmatch (Seq (num j) (Chr x)) s c)"
    then obtain t1 c1 where n: "(t1, c1) \<in> set (rmatch (num j) s c)"
      and x: "(t, c') \<in> set (rmatch (Chr x) t1 c1)"
      by (auto simp only: in_Seq)
    from x have c': "c' = c1" by (simp only: in_Chr)
    from in_num[OF n] obtain ip where ip: "all_digits ip"
      and d: "c1 = c(j \<mapsto> ip) \<or>
        (\<exists>fp. all_digits fp \<and> c1 = c(Suc j \<mapsto> CHR ''.'' # fp, j \<mapsto> ip @ CHR ''.'' # fp))"
      by blast
    from d show ?thesis
    proof
      assume "c1 = c(j \<mapsto> ip)"
      then show ?thesis using float_or0_whole[OF ip] c' True by simp
    next
      assume "\<exists>fp. all_digits fp \<and> c1 = c(Suc j \<mapsto> CHR ''.'' # fp, j \<mapsto> ip @ CHR ''.'' # fp)"
      then obtain fp where fp: "all_digits fp"
        and "c1 = c(Suc j \<mapsto> CHR ''.'' # fp, j \<mapsto> ip @ CHR ''.'' # fp)"
        by blast
      then show ?thesis using float_or0_frac[OF ip fp] c' True by simp
    qed
  qed
qed

lemma frame_readable:
  assumes "(t, c') \<in> set (rmatch r s c)" and "i \<notin> groups r"
    and "\<exists>v. float_or0 (c i) = Inr v"
  shows "\<exists>v. float_or0 (c' i) = Inr v"
  using rmatch_frame[OF assms(1,2)] assms(3) by simp

lemma duration_readable:
  assumes "re_match RE_ISO_8601_DURATION s = Some m" and "even i"
  shows "\<exists>v. float_or0 (m i) = Inr v"
proof -
  from re_match_in[OF assms(1)] obtain t where
    "(t, m) \<in> set (rmatch RE_ISO_8601_DURATION s (\<lambda>_. None))" by blast
  then obtain t1 c1 t2 c2 t3 c3 t4 c4 t5 c5 t6 c6 t7 c7 t8 c8 t9 c9 where
    s1: "(t1, c1) \<in> set (rmatch (Opt (Grp g_sign (Cls ''+-''))) s (\<lambda>_. None))"
    and s2: "(t2, c2) \<in> set (rmatch (Chr CHR ''P'') t1 c1)"
    and s3: "(t3, c3) \<in> set (rmatch (comp g_years CHR ''Y'') t2 c2)"
    and s4: "(t4, c4) \<in> set (rmatch (comp g_months CHR ''M'') t3 c3)"
    and s5: "(t5, c5) \<in> set (rmatch (comp g_days CHR ''D'') t4 c4)"
    and s6: "(t6, c6) \<in> set (rmatch (Opt (Chr CHR ''T'')) t5 c5)"
    and s7: "(t7, c7) \<in> set (rmatch (comp g_hours CHR ''H'') t6 c6)"
    and s8: "(t8, c8) \<in> set (rmatch (comp g_minutes CHR ''M'') t7 c7)"
    and s9: "(t9, c9) \<in> set (rmatch (comp g_seconds CHR ''S'') t8 c8)"
    and s10: "(t, m) \<in> set (rmatch Eos t9 c9)"
    unfolding RE_ISO_8601_DURATION_def seqs.simps by (auto simp only: in_Seq)
  have i: "i \<noteq> Suc g_years" "i \<noteq> Suc g_months" "i \<noteq> Suc g_days" "i \<noteq> Suc g_hours"
    "i \<noteq> Suc g_minutes" "i \<noteq> Suc g_seconds" "i \<noteq> g_sign"
    using assms(2)
    by (auto simp: g_years_def g_months_def g_days_def g_hours_def g_minutes_def
        g_seconds_def g_sign_def)
  have "\<exists>v. float_or0 ((\<lambda>_. None) i :: string option) = Inr v" by (simp add: float_or0_def)
  from frame_readable[OF s1 _ this] i(7) have "\<exists>v. float_or0 (c1 i) = Inr v" by simp
  from frame_readable[OF s2 _ this] have "\<exists>v. float_or0 (c2 i) = Inr v" by simp
  from comp_readable[OF s3 i(1) this] have "\<exists>v. float_or0 (c3 i) = Inr v" .
  from comp_readable[OF s4 i(2) this] have "\<exists>v. float_or0 (c4 i) = Inr v" .
  from comp_readable[OF s5 i(3) this] have "\<exists>v. float_or0 (c5 i) = Inr v" .
  from frame_readable[OF s6 _ this] have "\<exists>v. float_or0 (c6 i) = Inr v" by simp
  from comp_readable[OF s7 i(4) this] have "\<exists>v. float_or0 (c7 i) = Inr v" .
  from comp_readable[OF s8 i(5) this] have "\<exists>v. float_or0 (c8 i) = Inr v" .
  from comp_readable[OF s9 i(6) this] have "\<exists>v. float_or0 (c9 i) = Inr v" .
  from frame_readable[OF s10 _ this] show ?thesis by simp
qed

section \<open>The decoding policy in floats\<close>

lemma policy_us_split:
  "policy_us m =
     1000000 * (quantity (m g_seconds) + quantity (m g_minutes) * 60
                 + quantity (m g_hours) * 3600)
     + 86400000000 * (quantity (m g_days) + quantity (m g_months) * 30
                 + quantity (m g_years) * 365)"
  by (simp add: policy_us_def algebra_simps)

lemma policy_us_nonneg: "0 \<le> policy_us m"
  unfolding policy_us_def by (intro mult_nonneg_nonneg add_nonneg_nonneg quantity_nonneg) simp_all

text \<open>
  The microseconds of the result against the exact policy: the float sums of the
  days and of the seconds carry a relative error of at most \<open>2^-50\<close>, the constructor
  adds less than \<open>2^-16\<close> and the final rounding to a whole microsecond at most a half.
\<close>

lemma policy_err:
  fixes dd f D S :: rat
  assumes D: "0 \<le> D" and S: "0 \<le> S"
    and d: "\<bar>dd - D\<bar> \<le> D / 2 ^ 50 + 1 / 2 ^ 86"
    and f: "\<bar>f - S\<bar> \<le> S / 2 ^ 50 + 1 / 2 ^ 86"
    and y: "\<bar>of_int y - (1000000 * f + 86400000000 * dd)\<bar> \<le> 1 / 2 + 1 / 2 ^ 16"
  shows "\<bar>of_int y - (1000000 * S + 86400000000 * D)\<bar>
     \<le> 1 / 2 + 1 / 2 ^ 15 + (1000000 * S + 86400000000 * D) / 2 ^ 50"
  using assms unfolding abs_le_iff by (auto simp: add_divide_distrib)

lemma parse_duration_parts:
  assumes m: "re_match RE_ISO_8601_DURATION s = Some m"
    and p: "parse_duration (Str s) = Inr t"
  shows "m g_sign \<noteq> Some ''-'' \<and>
     timedelta_of_floats
       (fadd (fadd (round_double (quantity (m g_days)))
                (fmul (round_double (quantity (m g_months))) (Fin 30)))
          (fmul (round_double (quantity (m g_years))) (Fin 365)))
       (fadd (fadd (round_double (quantity (m g_seconds)))
                (fmul (round_double (quantity (m g_minutes))) (Fin 60)))
          (fmul (round_double (quantity (m g_hours))) (Fin 3600))) = Inr t"
proof -
  from p m obtain d mo y se mi h where
    f: "float_or0 (m g_days) = Inr d" "float_or0 (m g_months) = Inr mo"
       "float_or0 (m g_years) = Inr y" "float_or0 (m g_seconds) = Inr se"
       "float_or0 (m g_minutes) = Inr mi" "float_or0 (m g_hours) = Inr h"
    and sg: "m g_sign \<noteq> Some ''-''"
    and t: "timedelta_of_floats (fadd (fadd d (fmul mo (Fin 30))) (fmul y (Fin 365)))
       (fadd (fadd se (fmul mi (Fin 60))) (fmul h (Fin 3600))) = Inr t"
    by (auto simp: parse_duration_def Let_def bind_Inr_iff split: if_splits)
  from f have "d = round_double (quantity (m g_days))"
    "mo = round_double (quantity (m g_months))" "y = round_double (quantity (m g_years))"
    "se = round_double (quantity (m g_seconds))" "mi = round_double (quantity (m g_minutes))"
    "h = round_double (quantity (m g_hours))"
    by (auto dest: float_or0_quantity)
  with t sg show ?thesis by simp
qed

lemma parse_duration_bound:
  assumes m: "re_match RE_ISO_8601_DURATION s = Some m"
    and p: "parse_duration (Str s) = Inr t"
  shows "\<bar>of_int (td_to_us t) - policy_us m\<bar> \<le> 1 / 2 + 1 / 2 ^ 15 + policy_us m / 2 ^ 50"
proof -
  define D where "D = quantity (m g_days) + quantity (m g_months) * 30
      + quantity (m g_years) * 365"
  define S where "S = quantity (m g_seconds) + quantity (m g_minutes) * 60
      + quantity (m g_hours) * 3600"
  define vd where "vd = fadd (fadd (round_double (quantity (m g_days)))
                (fmul (round_double (quantity (m g_months))) (Fin 30)))
          (fmul (round_double (quantity (m g_years))) (Fin 365))"
  define vs where "vs = fadd (fadd (round_double (quantity (m g_seconds)))
                (fmul (round_double (quantity (m g_minutes))) (Fin 60)))
          (fmul (round_double (quantity (m g_hours))) (Fin 3600))"
  have D0: "0 \<le> D" unfolding D_def
    by (intro mult_nonneg_nonneg add_nonneg_nonneg quantity_nonneg) simp_all
  have S0: "0 \<le> S" unfolding S_def
    by (intro mult_nonneg_nonneg add_nonneg_nonneg quantity_nonneg) simp_all
  from parse_duration_parts[OF m p] have t: "timedelta_of_floats vd vs = Inr t"
    by (simp add: vd_def vs_def)
  from timedelta_of_floats_Inr[OF t] obtain dd f where v: "vd = Fin dd" "vs = Fin f" by blast
  have ed: "0 \<le> dd \<and> \<bar>dd - D\<bar> \<le> D / 2 ^ 50 + 1 / 2 ^ 86"
    unfolding D_def using v(1) unfolding vd_def
    by (intro weighted_err) (simp_all add: quantity_nonneg)
  have es: "0 \<le> f \<and> \<bar>f - S\<bar> \<le> S / 2 ^ 50 + 1 / 2 ^ 86"
    unfolding S_def using v(2) unfolding vs_def
    by (intro weighted_err) (simp_all add: quantity_nonneg)
  from timedelta_of_floats_err[of dd f] ed es obtain y where
    y: "timedelta_of_floats (Fin dd) (Fin f) = microseconds_to_delta y"
    and ey: "\<bar>of_int y - (1000000 * f + 86400000000 * dd)\<bar> \<le> 1 / 2 + 1 / 2 ^ 16"
    by blast
  from t y v have "microseconds_to_delta y = Inr t" by simp
  then have ty: "td_to_us t = y" using microseconds_to_delta_valid by blast
  have "\<bar>of_int y - (1000000 * S + 86400000000 * D)\<bar>
     \<le> 1 / 2 + 1 / 2 ^ 15 + (1000000 * S + 86400000000 * D) / 2 ^ 50"
    using D0 S0 ed es ey by (intro policy_err) simp_all
  moreover have "policy_us m = 1000000 * S + 86400000000 * D"
    unfolding S_def D_def by (rule policy_us_split)
  ultimately show ?thesis by (simp add: ty)
qed

lemma parse_duration_returns:
  assumes m: "re_match RE_ISO_8601_DURATION s = Some m"
    and sg: "m g_sign \<noteq> Some ''-''"
    and r: "policy_us m \<le> 86399999999000000000"
  shows "\<exists>y. parse_duration (Str s) = microseconds_to_delta y \<and> 0 \<le> y \<and>
     y < 86400000000000000000 \<and>
     \<bar>of_int y - policy_us m\<bar> \<le> 1 / 2 + 1 / 2 ^ 15 + policy_us m / 2 ^ 50"
proof -
  define D where "D = quantity (m g_days) + quantity (m g_months) * 30
      + quantity (m g_years) * 365"
  define S where "S = quantity (m g_seconds) + quantity (m g_minutes) * 60
      + quantity (m g_hours) * 3600"
  define vd where "vd = fadd (fadd (round_double (quantity (m g_days)))
                (fmul (round_double (quantity (m g_months))) (Fin 30)))
          (fmul (round_double (quantity (m g_years))) (Fin 365))"
  define vs where "vs = fadd (fadd (round_double (quantity (m g_seconds)))
                (fmul (round_double (quantity (m g_minutes))) (Fin 60)))
          (fmul (round_double (quantity (m g_hours))) (Fin 3600))"
  have D0: "0 \<le> D" unfolding D_def
    by (intro mult_nonneg_nonneg add_nonneg_nonneg quantity_nonneg) simp_all
  have S0: "0 \<le> S" unfolding S_def
    by (intro mult_nonneg_nonneg add_nonneg_nonneg quantity_nonneg) simp_all
  have X: "policy_us m = 1000000 * S + 86400000000 * D"
    unfolding S_def D_def by (rule policy_us_split)
  have Db: "D \<le> 2 ^ 70" and Sb: "S \<le> 2 ^ 70" using r D0 S0 unfolding X by simp_all
  have ev: "even g_days" "even g_months" "even g_years" "even g_seconds" "even g_minutes"
    "even g_hours"
    by (simp_all add: g_years_def g_months_def g_days_def g_hours_def g_minutes_def
        g_seconds_def)
  have f: "float_or0 (m g_days) = Inr (round_double (quantity (m g_days)))"
    "float_or0 (m g_months) = Inr (round_double (quantity (m g_months)))"
    "float_or0 (m g_years) = Inr (round_double (quantity (m g_years)))"
    "float_or0 (m g_seconds) = Inr (round_double (quantity (m g_seconds)))"
    "float_or0 (m g_minutes) = Inr (round_double (quantity (m g_minutes)))"
    "float_or0 (m g_hours) = Inr (round_double (quantity (m g_hours)))"
    using duration_readable[OF m ev(1)] duration_readable[OF m ev(2)]
      duration_readable[OF m ev(3)] duration_readable[OF m ev(4)]
      duration_readable[OF m ev(5)] duration_readable[OF m ev(6)]
    by (auto dest: float_or0_quantity)
  have pd: "parse_duration (Str s) = timedelta_of_floats vd vs"
    unfolding vd_def vs_def using m sg f by (rule parse_duration_Str)
  obtain dd where vd: "vd = Fin dd"
    using weighted_fin[of "quantity (m g_days)" "quantity (m g_months)"
        "quantity (m g_years)" 30 365] Db
    by (auto simp: vd_def D_def quantity_nonneg)
  obtain f where vs: "vs = Fin f"
    using weighted_fin[of "quantity (m g_seconds)" "quantity (m g_minutes)"
        "quantity (m g_hours)" 60 3600] Sb
    by (auto simp: vs_def S_def quantity_nonneg)
  have ed: "0 \<le> dd \<and> \<bar>dd - D\<bar> \<le> D / 2 ^ 50 + 1 / 2 ^ 86"
    unfolding D_def using vd unfolding vd_def
    by (intro weighted_err) (simp_all add: quantity_nonneg)
  have es: "0 \<le> f \<and> \<bar>f - S\<bar> \<le> S / 2 ^ 50 + 1 / 2 ^ 86"
    unfolding S_def using vs unfolding vs_def
    by (intro weighted_err) (simp_all add: quantity_nonneg)
  from timedelta_of_floats_err[of dd f] ed es obtain y where
    y: "timedelta_of_floats (Fin dd) (Fin f) = microseconds_to_delta y"
    and ey: "\<bar>of_int y - (1000000 * f + 86400000000 * dd)\<bar> \<le> 1 / 2 + 1 / 2 ^ 16"
    by blast
  have e: "\<bar>of_int y - policy_us m\<bar> \<le> 1 / 2 + 1 / 2 ^ 15 + policy_us m / 2 ^ 50"
    unfolding X using D0 S0 ed es ey by (intro policy_err) simp_all
  have X0: "0 \<le> policy_us m" by (rule policy_us_nonneg)
  have "- 1 < rat_of_int y" using e X0 unfolding abs_le_iff by (auto simp: add_divide_distrib)
  then have "- 1 < y" by (simp only: of_int_less_iff[symmetric, where 'a = rat] of_int_minus of_int_1)
  then have y0: "0 \<le> y" by simp
  have "rat_of_int y < 86400000000000000000"
    using e r unfolding abs_le_iff by (auto simp: add_divide_distrib)
  then have "rat_of_int y < rat_of_int 86400000000000000000" by simp
  then have y1: "y < 86400000000000000000" by (simp only: of_int_less_iff)
  from pd y vd vs y0 y1 e show ?thesis by auto
qed

lemma microseconds_to_delta_small:
  assumes "0 \<le> y" and "y < 86400000000000000000"
  shows "microseconds_to_delta y =
     Inr \<lparr>days = y div 86400000000, seconds = y div 1000000 mod 86400,
          microseconds = y mod 1000000\<rparr>"
proof -
  have d: "y div 1000000 div 86400 = y div 86400000000"
    by (simp add: div_mult2_eq[symmetric])
  have "y div 86400000000 < 1000000000" using assms by simp
  moreover have "0 \<le> y div 86400000000" using assms(1) by (simp add: pos_imp_zdiv_nonneg_iff)
  ultimately show ?thesis by (simp add: microseconds_to_delta_def Let_def d)
qed

lemma parse_duration_exists:
  assumes "re_match RE_ISO_8601_DURATION s = Some m" and "m g_sign \<noteq> Some ''-''"
    and "policy_us m \<le> 86399999999000000000"
  shows "\<exists>t. parse_duration (Str s) = Inr t"
proof -
  from parse_duration_returns[OF assms] obtain y where
    "parse_duration (Str s) = microseconds_to_delta y" "0 \<le> y" "y < 86400000000000000000"
    by blast
  then show ?thesis using microseconds_to_delta_small[of y] by simp
qed

text \<open>A total that is a whole number of microseconds, below \<open>2^48\<close>, is hit exactly.\<close>

lemma parse_duration_exact:
  assumes m: "re_match RE_ISO_8601_DURATION s = Some m" and sg: "m g_sign \<noteq> Some ''-''"
    and N: "policy_us m = of_int N" and b: "N \<le> 2 ^ 48"
  shows "parse_duration (Str s) =
     Inr \<lparr>days = N div 86400000000, seconds = N div 1000000 mod 86400,
          microseconds = N mod 1000000\<rparr>"
proof -
  have "rat_of_int N \<le> rat_of_int (2 ^ 48)" using b by (simp only: of_int_le_iff)
  then have Nb: "rat_of_int N \<le> 2 ^ 48" by simp
  then have r: "policy_us m \<le> 86399999999000000000" unfolding N by simp
  from parse_duration_returns[OF m sg r] obtain y where
    p: "parse_duration (Str s) = microseconds_to_delta y" and y: "0 \<le> y"
    "y < 86400000000000000000"
    and e: "\<bar>of_int y - rat_of_int N\<bar> \<le> 1 / 2 + 1 / 2 ^ 15 + rat_of_int N / 2 ^ 50"
    unfolding N by blast
  have "\<bar>rat_of_int y - rat_of_int N\<bar> < 1"
    using e Nb unfolding abs_le_iff abs_less_iff by (auto simp: add_divide_distrib)
  then have "\<bar>rat_of_int (y - N)\<bar> < rat_of_int 1" by simp
  then have "\<bar>y - N\<bar> < 1" by (simp only: of_int_abs[symmetric] of_int_less_iff)
  then have "y = N" by simp
  with p y show ?thesis using microseconds_to_delta_small[of N] by simp
qed

section \<open>Matching a number with a fraction and its designator\<close>

lemma seq_chr_head:
  assumes "rmatch r s c = (u, c1) # T"
    and "\<forall>p\<in>set T. fst p = [] \<or> hd (fst p) \<noteq> x"
  shows "rmatch (Seq r (Chr x)) s c = rmatch (Chr x) u c1"
proof -
  have "concat (map (\<lambda>(s', c'). rmatch (Chr x) s' c') T) = []"
  proof (rule concat_map_empty, rule ballI)
    fix p assume "p \<in> set T"
    with assms(2) have "fst p = [] \<or> hd (fst p) \<noteq> x" by blast
    then have "rmatch (Chr x) (fst p) (snd p) = []" by (rule chr_fail)
    then show "(case p of (s', c') \<Rightarrow> rmatch (Chr x) s' c') = []" by (simp add: case_prod_beta)
  qed
  then show ?thesis by (simp add: assms(1) del: rmatch.simps(1))
qed

lemma frac_list:
  assumes fp: "all_digits fp" and a: "a \<notin> set digits"
  shows "\<exists>T. rmatch (Grp j (Seq (Chr CHR ''.'') (Rep digits 1 None)))
              (CHR ''.'' # fp @ a # r) c = (a # r, c(j \<mapsto> CHR ''.'' # fp)) # T \<and>
     (\<forall>p\<in>set T. fst p \<noteq> [] \<and> hd (fst p) \<in> set digits)"
proof -
  let ?u = "fp @ a # r"
  let ?G = "\<lambda>(s', c'). (s', c'(j \<mapsto> take (length (CHR ''.'' # ?u) - length s') (CHR ''.'' # ?u)))"
  let ?T = "map ?G (map (\<lambda>k. (drop k ?u, c)) (rev [1..<length fp]))"
  have "rmatch (Seq (Chr CHR ''.'') (Rep digits 1 None)) (CHR ''.'' # ?u) c =
      rmatch (Rep digits 1 None) ?u c"
    by simp
  also have "\<dots> = map (\<lambda>k. (drop k ?u, c)) (length fp # rev [1..<length fp])"
    by (simp only: rmatch.simps(3) rep_counts_digits[OF fp a])
  finally have "rmatch (Grp j (Seq (Chr CHR ''.'') (Rep digits 1 None))) (CHR ''.'' # ?u) c =
      map ?G (map (\<lambda>k. (drop k ?u, c)) (length fp # rev [1..<length fp]))"
    by (simp only: rmatch.simps(7))
  also have "\<dots> = ?G (drop (length fp) ?u, c) # ?T" by (simp only: list.map)
  also have "?G (drop (length fp) ?u, c) = (a # r, c(j \<mapsto> CHR ''.'' # fp))" by simp
  finally have h: "rmatch (Grp j (Seq (Chr CHR ''.'') (Rep digits 1 None))) (CHR ''.'' # ?u) c =
      (a # r, c(j \<mapsto> CHR ''.'' # fp)) # ?T" .
  have "fst p \<noteq> [] \<and> hd (fst p) \<in> set digits" if "p \<in> set ?T" for p
  proof -
    from that obtain k where k: "1 \<le> k" "k < length fp" and p: "fst p = drop k ?u"
      by (auto simp: case_prod_beta)
    have "drop k ?u = drop k fp @ a # r" using k by simp
    with drop_digit[OF fp k(2), of "a # r"] p show ?thesis by simp
  qed
  with h show ?thesis by blast
qed

lemma opt_frac_digit:
  assumes "u \<noteq> []" and "hd u \<in> set digits"
  shows "rmatch (Opt (Grp j (Seq (Chr CHR ''.'') (Rep digits 1 None)))) u c = [(u, c)]"
proof -
  have "hd u \<noteq> CHR ''.''" using assms(2) dot_not_digit by auto
  then have "rmatch (Chr CHR ''.'') u c = []" by (intro chr_fail) simp
  then show ?thesis by (simp del: rmatch.simps(1))
qed

text \<open>The matches of the number of a component on digits, a point, digits and a letter:
  the whole number with its fraction first; every other way to match stops at a digit
  or at the point.\<close>

lemma num_frac_list:
  assumes ip: "all_digits ip" and fp: "all_digits fp" and a: "a \<notin> set digits"
  shows "\<exists>T. rmatch (num i) (ip @ CHR ''.'' # fp @ a # r) c =
       (a # r, c(Suc i \<mapsto> CHR ''.'' # fp, i \<mapsto> ip @ CHR ''.'' # fp)) # T \<and>
     (\<forall>p\<in>set T. fst p \<noteq> [] \<and> (hd (fst p) \<in> set digits \<or> hd (fst p) = CHR ''.''))"
proof -
  let ?s = "ip @ CHR ''.'' # fp @ a # r"
  let ?u = "CHR ''.'' # fp @ a # r"
  let ?frac = "Grp (Suc i) (Seq (Chr CHR ''.'') (Rep digits 1 None))"
  let ?G = "\<lambda>(s', c'). (s', c'(i \<mapsto> take (length ?s - length s') ?s))"
  from frac_list[OF fp a, of "Suc i" r c] obtain T1 where
    f: "rmatch ?frac ?u c = (a # r, c(Suc i \<mapsto> CHR ''.'' # fp)) # T1"
    and T1: "\<forall>p\<in>set T1. fst p \<noteq> [] \<and> hd (fst p) \<in> set digits"
    by blast
  define R where
    "R = concat (map (\<lambda>k. rmatch (Opt ?frac) (drop k ?s) c) (rev [1..<length ip]))"
  have o: "rmatch (Opt ?frac) ?u c = (a # r, c(Suc i \<mapsto> CHR ''.'' # fp)) # (T1 @ [(?u, c)])"
    by (simp only: rmatch.simps(6) f append_Cons)
  have "rmatch (Seq (Rep digits 1 None) (Opt ?frac)) ?s c =
      concat (map (\<lambda>k. rmatch (Opt ?frac) (drop k ?s) c) (length ip # rev [1..<length ip]))"
    by (simp only: rmatch.simps(3,4) rep_counts_digits[OF ip dot_not_digit] map_map o_def
        split_conv)
  also have "\<dots> = rmatch (Opt ?frac) ?u c @ R"
    unfolding R_def by (simp del: rmatch.simps)
  finally have inner: "rmatch (Seq (Rep digits 1 None) (Opt ?frac)) ?s c =
      (a # r, c(Suc i \<mapsto> CHR ''.'' # fp)) # (T1 @ [(?u, c)] @ R)"
    by (simp only: o append_Cons append_assoc)
  have rest: "fst p \<noteq> [] \<and> hd (fst p) \<in> set digits" if "p \<in> set R" for p
  proof -
    from that obtain k where k: "1 \<le> k" "k < length ip"
      and p: "p \<in> set (rmatch (Opt ?frac) (drop k ?s) c)"
      unfolding R_def by (auto simp del: rmatch.simps)
    have d: "drop k ?s = drop k ip @ ?u" using k by simp
    from drop_digit[OF ip k(2), of ?u] have "drop k ?s \<noteq> []" "hd (drop k ?s) \<in> set digits"
      unfolding d by simp_all
    then have "rmatch (Opt ?frac) (drop k ?s) c = [(drop k ?s, c)]" by (rule opt_frac_digit)
    with p have "p \<in> set [(drop k ?s, c)]" by (simp only:)
    then have "fst p = drop k ?s" by simp
    with \<open>drop k ?s \<noteq> []\<close> \<open>hd (drop k ?s) \<in> set digits\<close> show ?thesis by simp
  qed
  let ?T = "map ?G (T1 @ [(?u, c)] @ R)"
  have "rmatch (num i) ?s c = ?G (a # r, c(Suc i \<mapsto> CHR ''.'' # fp)) # ?T"
    unfolding num_def by (simp only: rmatch.simps(7) inner list.map)
  also have "?G (a # r, c(Suc i \<mapsto> CHR ''.'' # fp)) =
      (a # r, c(Suc i \<mapsto> CHR ''.'' # fp, i \<mapsto> ip @ CHR ''.'' # fp))"
    by simp
  finally have h: "rmatch (num i) ?s c =
      (a # r, c(Suc i \<mapsto> CHR ''.'' # fp, i \<mapsto> ip @ CHR ''.'' # fp)) # ?T" .
  have "fst p \<noteq> [] \<and> (hd (fst p) \<in> set digits \<or> hd (fst p) = CHR ''.'')" if "p \<in> set ?T" for p
  proof -
    from that have "p \<in> ?G ` set (T1 @ [(?u, c)] @ R)" by (simp only: set_map)
    then obtain p' where p': "p' \<in> set (T1 @ [(?u, c)] @ R)" and pe: "p = ?G p'"
      by (rule imageE)
    have e: "fst p = fst p'" unfolding pe by (simp add: case_prod_beta)
    from p' have "p' \<in> set T1 \<or> p' = (?u, c) \<or> p' \<in> set R" by auto
    then have "fst p' \<noteq> [] \<and> (hd (fst p') \<in> set digits \<or> hd (fst p') = CHR ''.'')"
    proof (elim disjE)
      assume "p' \<in> set T1"
      with T1 show ?thesis by blast
    next
      assume "p' = (?u, c)"
      then show ?thesis by simp
    next
      assume "p' \<in> set R"
      from rest[OF this] show ?thesis by blast
    qed
    with e show ?thesis by simp
  qed
  with h show ?thesis by blast
qed

lemma num_letter_frac:
  assumes ip: "all_digits ip" and fp: "all_digits fp" and a: "a \<notin> set digits"
    and x: "x \<notin> set digits" "x \<noteq> CHR ''.''"
  shows "rmatch (Seq (num i) (Chr x)) (ip @ CHR ''.'' # fp @ a # r) c =
     (if a = x then [(r, c(Suc i \<mapsto> CHR ''.'' # fp, i \<mapsto> ip @ CHR ''.'' # fp))] else [])"
proof -
  from num_frac_list[OF ip fp a, of i r c] obtain T where
    h: "rmatch (num i) (ip @ CHR ''.'' # fp @ a # r) c =
       (a # r, c(Suc i \<mapsto> CHR ''.'' # fp, i \<mapsto> ip @ CHR ''.'' # fp)) # T"
    and T: "\<forall>p\<in>set T. fst p \<noteq> [] \<and> (hd (fst p) \<in> set digits \<or> hd (fst p) = CHR ''.'')"
    by blast
  from T x have "\<forall>p\<in>set T. fst p = [] \<or> hd (fst p) \<noteq> x" by auto
  from seq_chr_head[OF h this] show ?thesis by simp
qed

lemma comp_take_frac:
  assumes "all_digits ip" and "all_digits fp" and "a \<notin> set digits"
    and "x \<notin> set digits" "x \<noteq> CHR ''.''"
  shows "rmatch (comp i x) (ip @ CHR ''.'' # fp @ a # r) c =
     (if a = x then [(r, c(Suc i \<mapsto> CHR ''.'' # fp, i \<mapsto> ip @ CHR ''.'' # fp))] else [])
       @ [(ip @ CHR ''.'' # fp @ a # r, c)]"
  unfolding comp_def by (simp only: rmatch.simps(6) num_letter_frac[OF assms])

section \<open>The designator M with a fraction\<close>

lemma decimal_cases:
  assumes "decimal n"
  shows "all_digits n \<or> (\<exists>ip fp. all_digits ip \<and> all_digits fp \<and> n = ip @ CHR ''.'' # fp)"
proof -
  let ?P = "\<lambda>c. c \<noteq> CHR ''.''"
  have n: "n = takeWhile ?P n @ dropWhile ?P n" by simp
  from assms have ip: "all_digits (takeWhile ?P n)"
    and fp: "dropWhile ?P n = [] \<or> all_digits (tl (dropWhile ?P n))"
    by (simp_all add: decimal_def)
  show ?thesis
  proof (cases "dropWhile ?P n = []")
    case True
    with n have "n = takeWhile ?P n" by simp
    with ip show ?thesis by simp
  next
    case False
    then have "\<not> ?P (hd (dropWhile ?P n))" by (rule hd_dropWhile)
    then have "hd (dropWhile ?P n) = CHR ''.''" by simp
    with False have "dropWhile ?P n = CHR ''.'' # tl (dropWhile ?P n)"
      by (cases "dropWhile ?P n") simp_all
    with n have "n = takeWhile ?P n @ CHR ''.'' # tl (dropWhile ?P n)" by simp
    moreover from fp False have "all_digits (tl (dropWhile ?P n))" by blast
    ultimately show ?thesis using ip by blast
  qed
qed

lemma not_dot: "CHR ''Y'' \<noteq> CHR ''.''" "CHR ''M'' \<noteq> CHR ''.''" "CHR ''D'' \<noteq> CHR ''.''"
  "CHR ''H'' \<noteq> CHR ''.''" "CHR ''S'' \<noteq> CHR ''.''"
  by simp_all

lemmas duration_steps_frac = duration_steps comp_take_frac not_dot

lemma match_months_frac:
  assumes "all_digits ip" and "all_digits fp"
  shows "rmatch RE_ISO_8601_DURATION (CHR ''P'' # ip @ CHR ''.'' # fp @ ''M'') c =
     [([], c(Suc g_months \<mapsto> CHR ''.'' # fp, g_months \<mapsto> ip @ CHR ''.'' # fp)),
      ([], c(Suc g_minutes \<mapsto> CHR ''.'' # fp, g_minutes \<mapsto> ip @ CHR ''.'' # fp))]"
  unfolding RE_ISO_8601_DURATION_def seqs.simps
  using assms
  by (simp only: duration_steps_frac) (simp del: rmatch.simps add: duration_steps_frac)

lemma match_minutes_frac:
  assumes "all_digits ip" and "all_digits fp"
  shows "rmatch RE_ISO_8601_DURATION (CHR ''P'' # CHR ''T'' # ip @ CHR ''.'' # fp @ ''M'') c =
     [([], c(Suc g_minutes \<mapsto> CHR ''.'' # fp, g_minutes \<mapsto> ip @ CHR ''.'' # fp))]"
  unfolding RE_ISO_8601_DURATION_def seqs.simps
  using assms
  by (simp only: duration_steps_frac) (simp del: rmatch.simps add: duration_steps_frac)

lemma groups_months_frac:
  assumes "all_digits ip" and "all_digits fp"
  shows "\<exists>m. re_match RE_ISO_8601_DURATION (''P'' @ (ip @ CHR ''.'' # fp) @ ''M'') = Some m \<and>
     dgroups m = [None, None, Some (ip @ CHR ''.'' # fp), None, None, None, None]"
  using match_months_frac[OF assms]
  by (simp add: re_match_def dgroups_def g_sign_def g_years_def g_months_def g_days_def
      g_hours_def g_minutes_def g_seconds_def)

lemma groups_minutes_frac:
  assumes "all_digits ip" and "all_digits fp"
  shows "\<exists>m. re_match RE_ISO_8601_DURATION (''PT'' @ (ip @ CHR ''.'' # fp) @ ''M'') = Some m \<and>
     dgroups m = [None, None, None, None, None, Some (ip @ CHR ''.'' # fp), None]"
  using match_minutes_frac[OF assms]
  by (simp add: re_match_def dgroups_def g_sign_def g_years_def g_months_def g_days_def
      g_hours_def g_minutes_def g_seconds_def)

lemma groups_months_decimal:
  assumes "decimal n"
  shows "\<exists>m. re_match RE_ISO_8601_DURATION (''P'' @ n @ ''M'') = Some m \<and>
     dgroups m = [None, None, Some n, None, None, None, None]"
  using decimal_cases[OF assms] groups_months groups_months_frac by blast

lemma groups_minutes_decimal:
  assumes "decimal n"
  shows "\<exists>m. re_match RE_ISO_8601_DURATION (''PT'' @ n @ ''M'') = Some m \<and>
     dgroups m = [None, None, None, None, None, Some n, None]"
  using decimal_cases[OF assms] groups_minutes groups_minutes_frac by blast

lemma policy_us_months:
  assumes "dgroups m = [None, None, Some n, None, None, None, None]"
  shows "policy_us m = 30 * quantity (Some n) * 86400000000"
  using assms by (simp add: dgroups_eq policy_us_def quantity_None)

lemma policy_us_minutes:
  assumes "dgroups m = [None, None, None, None, None, Some n, None]"
  shows "policy_us m = 60 * quantity (Some n) * 1000000"
  using assms by (simp add: dgroups_eq policy_us_def quantity_None)

section \<open>The decoding policy (claim C6)\<close>

text \<open>
  Claim C6: for every duration string accepted by the grammar, with the components
  y, m, d, h, min, s, \<^verbatim>\<open>parse_duration\<close> returns the elapsed time of
  365 y + 30 m + d days and 3600 h + 60 min + s seconds. As stated the claim fails on a
  string with a leading \<^verbatim>\<open>-\<close>, which the grammar accepts and the function rejects.
\<close>

theorem parse_duration_rejects_minus_P1D:
  "map_option dgroups (re_match RE_ISO_8601_DURATION ''-P1D'') =
     Some [Some ''-'', None, None, Some ''1'', None, None, None] \<and>
   parse_duration (Str ''-P1D'') = Inl ValueError"
  using match_minus_P1D parse_duration_minus[of "''P1D''"] by simp

text \<open>
  Claim C6 as amended: let the duration pattern match the string without the sign
  \<^verbatim>\<open>-\<close>, and let X be the microseconds that the policy gives its components years y,
  months m, days d, hours h, minutes min and seconds s, each absent (counted as 0) or a
  decimal number with or without a fraction: 365 y + 30 m + d days and
  3600 h + 60 min + s seconds.

  \<^item> If X is at most 86399999999000000000 (999999999 days less 1000 seconds),
    \<^verbatim>\<open>parse_duration\<close> returns an elapsed time.
  \<^item> Every elapsed time that it returns is normalised, not negative, and its
    microseconds differ from X by at most \<open>1/2 + 2^-15 + X / 2^50\<close>: the sums are
    computed in doubles and the result is rounded to a whole microsecond.
  \<^item> If X is a whole number of microseconds and at most \<open>2^48\<close>, the result is
    exactly X microseconds.
  \<^item> If all components are whole numbers and the total is at most 999999999 days, the
    result is exactly 365 y + 30 m + d days and 3600 h + 60 min + s seconds.

  In particular \<^verbatim>\<open>parse_duration("P1DT2H30M")\<close> is 1 day and 9000 seconds, and
  \<^verbatim>\<open>parse_duration("PT5.5S")\<close> is 5 seconds and 500000 microseconds.
\<close>

theorem parse_duration_policy:
  assumes "re_match RE_ISO_8601_DURATION s = Some m" and "m g_sign \<noteq> Some ''-''"
  shows "(policy_us m \<le> 86399999999000000000 \<longrightarrow> (\<exists>t. parse_duration (Str s) = Inr t)) \<and>
     (\<forall>t. parse_duration (Str s) = Inr t \<longrightarrow>
        valid_timedelta t \<and> 0 \<le> days t \<and>
        \<bar>of_int (td_to_us t) - policy_us m\<bar> \<le> 1 / 2 + 1 / 2 ^ 15 + policy_us m / 2 ^ 50) \<and>
     (\<forall>N. policy_us m = of_int N \<and> N \<le> 2 ^ 48 \<longrightarrow>
        parse_duration (Str s) =
          Inr \<lparr>days = N div 86400000000, seconds = N div 1000000 mod 86400,
               microseconds = N mod 1000000\<rparr>) \<and>
     (whole (m g_years) \<and> whole (m g_months) \<and> whole (m g_days) \<and>
      whole (m g_hours) \<and> whole (m g_minutes) \<and> whole (m g_seconds) \<and>
      365 * component (m g_years) + 30 * component (m g_months) + component (m g_days)
        + (3600 * component (m g_hours) + 60 * component (m g_minutes)
           + component (m g_seconds)) div 86400 \<le> 999999999 \<longrightarrow>
        parse_duration (Str s) =
          Inr \<lparr>days = int (365 * component (m g_years) + 30 * component (m g_months)
                      + component (m g_days)
                      + (3600 * component (m g_hours) + 60 * component (m g_minutes)
                         + component (m g_seconds)) div 86400),
               seconds = int ((3600 * component (m g_hours) + 60 * component (m g_minutes)
                         + component (m g_seconds)) mod 86400),
               microseconds = 0\<rparr>)"
proof (intro conjI allI impI)
  assume "policy_us m \<le> 86399999999000000000"
  with assms show "\<exists>t. parse_duration (Str s) = Inr t" by (rule parse_duration_exists)
next
  fix t assume p: "parse_duration (Str s) = Inr t"
  from parse_duration_nonneg[OF p] show "valid_timedelta t" and "0 \<le> days t" by simp_all
  from assms(1) p
  show "\<bar>of_int (td_to_us t) - policy_us m\<bar> \<le> 1 / 2 + 1 / 2 ^ 15 + policy_us m / 2 ^ 50"
    by (rule parse_duration_bound)
next
  fix N assume "policy_us m = of_int N \<and> N \<le> 2 ^ 48"
  then have "policy_us m = of_int N" and "N \<le> 2 ^ 48" by simp_all
  with assms show "parse_duration (Str s) =
      Inr \<lparr>days = N div 86400000000, seconds = N div 1000000 mod 86400,
           microseconds = N mod 1000000\<rparr>"
    by (rule parse_duration_exact)
next
  assume a: "whole (m g_years) \<and> whole (m g_months) \<and> whole (m g_days) \<and>
      whole (m g_hours) \<and> whole (m g_minutes) \<and> whole (m g_seconds) \<and>
      365 * component (m g_years) + 30 * component (m g_months) + component (m g_days)
        + (3600 * component (m g_hours) + 60 * component (m g_minutes)
           + component (m g_seconds)) div 86400 \<le> 999999999"
  have g: "dgroups m = [m g_sign, m g_years, m g_months, m g_days, m g_hours, m g_minutes,
      m g_seconds]"
    by (simp add: dgroups_def)
  from a show "parse_duration (Str s) =
          Inr \<lparr>days = int (365 * component (m g_years) + 30 * component (m g_months)
                      + component (m g_days)
                      + (3600 * component (m g_hours) + 60 * component (m g_minutes)
                         + component (m g_seconds)) div 86400),
               seconds = int ((3600 * component (m g_hours) + 60 * component (m g_minutes)
                         + component (m g_seconds)) mod 86400),
               microseconds = 0\<rparr>"
    by (intro parse_duration_whole[OF assms(1) g assms(2)]) simp_all
qed

lemma match_PT5_5S:
  "map_option dgroups (re_match RE_ISO_8601_DURATION ''PT5.5S'') =
     Some [None, None, None, None, None, None, Some ''5.5'']"
  by code_simp

lemma quantity_examples:
  "quantity (Some ''5.5'') = 11 / 2" "quantity (Some ''1.5'') = 3 / 2"
  "quantity (Some ''1'') = 1"
  by (simp_all add: quantity_def nat_of_digits_def digit_val_def)

theorem parse_duration_policy_witness:
  "map_option dgroups (re_match RE_ISO_8601_DURATION ''PT5.5S'') =
     Some [None, None, None, None, None, None, Some ''5.5''] \<and>
   policy_us (the (re_match RE_ISO_8601_DURATION ''PT5.5S'')) = 5500000 \<and>
   parse_duration (Str ''PT5.5S'') =
     Inr \<lparr>days = 0, seconds = 5, microseconds = 500000\<rparr> \<and>
   map_option dgroups (re_match RE_ISO_8601_DURATION ''P1DT2H30M'') =
     Some [None, None, None, Some ''1'', Some ''2'', Some ''30'', None] \<and>
   parse_duration (Str ''P1DT2H30M'') = Inr \<lparr>days = 1, seconds = 9000, microseconds = 0\<rparr>"
proof -
  from match_PT5_5S obtain m where m: "re_match RE_ISO_8601_DURATION ''PT5.5S'' = Some m"
    and "dgroups m = [None, None, None, None, None, None, Some ''5.5'']"
    by (auto simp: map_option_case split: option.splits)
  then have g: "m g_sign = None" "m g_years = None" "m g_months = None" "m g_days = None"
    "m g_hours = None" "m g_minutes = None" "m g_seconds = Some ''5.5''"
    by (simp_all add: dgroups_eq)
  have X: "policy_us m = of_int 5500000"
    by (simp add: policy_us_def g quantity_None quantity_examples)
  have sg: "m g_sign \<noteq> Some ''-''" by (simp add: g)
  have a: "parse_duration (Str ''PT5.5S'') =
      Inr \<lparr>days = 0, seconds = 5, microseconds = 500000\<rparr>"
    using parse_duration_policy[OF m sg] X by simp
  from match_P1DT2H30M obtain m' where
    m': "re_match RE_ISO_8601_DURATION ''P1DT2H30M'' = Some m'"
    and "dgroups m' = [None, None, None, Some ''1'', Some ''2'', Some ''30'', None]"
    by (auto simp: map_option_case split: option.splits)
  then have g': "m' g_sign = None" "m' g_years = None" "m' g_months = None"
    "m' g_days = Some ''1''" "m' g_hours = Some ''2''" "m' g_minutes = Some ''30''"
    "m' g_seconds = None"
    by (simp_all add: dgroups_eq)
  have sg': "m' g_sign \<noteq> Some ''-''" by (simp add: g')
  have b: "parse_duration (Str ''P1DT2H30M'') =
      Inr \<lparr>days = 1, seconds = 9000, microseconds = 0\<rparr>"
    using parse_duration_policy[OF m' sg'] by (simp add: g' whole_simps component_simps)
  have c: "policy_us (the (re_match RE_ISO_8601_DURATION ''PT5.5S'')) = 5500000"
    using X by (simp add: m)
  from a b c match_PT5_5S match_P1DT2H30M show ?thesis by simp
qed

section \<open>Months and minutes (claim C10)\<close>

text \<open>
  Claim C10: the designator \<^verbatim>\<open>M\<close> is told apart by its position only: for every
  non-negative decimal number n, \<^verbatim>\<open>P<n>M\<close> is n months, an elapsed time of 30 n days,
  and \<^verbatim>\<open>PT<n>M\<close> is n minutes, 60 n seconds. As stated the claim fails for a number
  that leads out of the range of \<^verbatim>\<open>timedelta\<close>: 33333334 months are 1000000020 days,
  and the constructor raises an \<^verbatim>\<open>OverflowError\<close>.
\<close>

theorem parse_duration_months_overflow:
  "parse_duration (Str ''P33333334M'') = Inl OverflowError"
proof -
  have a: "all_digits ''33333334''" by (simp add: all_digits_def digits_def)
  have n: "nat_of_digits ''33333334'' = 33333334"
    by (simp add: nat_of_digits_def digit_val_def)
  from groups_months[OF a] obtain m where
    m: "re_match RE_ISO_8601_DURATION ''P33333334M'' = Some m"
    and g: "dgroups m = [None, None, Some ''33333334'', None, None, None, None]"
    by auto
  have "parse_duration (Str ''P33333334M'') =
      microseconds_to_delta (int (0 + 0 * 60 + 0 * 3600) * 1000000 +
        int (0 + 33333334 * 30 + 0 * 365) * 86400000000)"
    using parse_duration_whole_us[OF m g] a
    by (simp add: whole_digits component_digits n)
  then show ?thesis by (simp add: microseconds_to_delta_def)
qed

text \<open>
  Claim C10 as amended: for every decimal number n, written with any digits and with
  or without a fraction, the pattern reads \<^verbatim>\<open>P<n>M\<close> with n as the months and
  \<^verbatim>\<open>PT<n>M\<close> with n as the minutes, nothing else being set. With X the microseconds
  of 30 n days for \<^verbatim>\<open>P<n>M\<close>, and of 60 n seconds for \<^verbatim>\<open>PT<n>M\<close>:

  \<^item> every elapsed time that \<^verbatim>\<open>parse_duration\<close> returns differs from X by at most
    \<open>1/2 + 2^-15 + X / 2^50\<close> microseconds;
  \<^item> if X is at most 86399999999000000000, \<^verbatim>\<open>parse_duration\<close> returns an elapsed
    time;
  \<^item> if X is a whole number of microseconds and at most \<open>2^48\<close>, the result is exactly
    X microseconds;
  \<^item> if n is a whole number and the days of the total are at most 999999999, the
    result is exactly 30 n days, or 60 n seconds.

  In particular \<^verbatim>\<open>P1M\<close> is 30 days, \<^verbatim>\<open>PT1M\<close> is 60 seconds, \<^verbatim>\<open>P1.5M\<close> is 45 days
  and \<^verbatim>\<open>PT1.5M\<close> is 90 seconds.
\<close>

theorem parse_duration_M:
  assumes "decimal n"
  shows "map_option dgroups (re_match RE_ISO_8601_DURATION (''P'' @ n @ ''M'')) =
       Some [None, None, Some n, None, None, None, None] \<and>
     map_option dgroups (re_match RE_ISO_8601_DURATION (''PT'' @ n @ ''M'')) =
       Some [None, None, None, None, None, Some n, None] \<and>
     (\<forall>t. parse_duration (Str (''P'' @ n @ ''M'')) = Inr t \<longrightarrow>
        \<bar>of_int (td_to_us t) - 30 * quantity (Some n) * 86400000000\<bar>
          \<le> 1 / 2 + 1 / 2 ^ 15 + 30 * quantity (Some n) * 86400000000 / 2 ^ 50) \<and>
     (30 * quantity (Some n) * 86400000000 \<le> 86399999999000000000 \<longrightarrow>
        (\<exists>t. parse_duration (Str (''P'' @ n @ ''M'')) = Inr t)) \<and>
     (\<forall>N. 30 * quantity (Some n) * 86400000000 = of_int N \<and> N \<le> 2 ^ 48 \<longrightarrow>
        parse_duration (Str (''P'' @ n @ ''M'')) =
          Inr \<lparr>days = N div 86400000000, seconds = N div 1000000 mod 86400,
               microseconds = N mod 1000000\<rparr>) \<and>
     (all_digits n \<and> 30 * nat_of_digits n \<le> 999999999 \<longrightarrow>
        parse_duration (Str (''P'' @ n @ ''M'')) =
          Inr \<lparr>days = int (30 * nat_of_digits n), seconds = 0, microseconds = 0\<rparr>) \<and>
     (\<forall>t. parse_duration (Str (''PT'' @ n @ ''M'')) = Inr t \<longrightarrow>
        \<bar>of_int (td_to_us t) - 60 * quantity (Some n) * 1000000\<bar>
          \<le> 1 / 2 + 1 / 2 ^ 15 + 60 * quantity (Some n) * 1000000 / 2 ^ 50) \<and>
     (60 * quantity (Some n) * 1000000 \<le> 86399999999000000000 \<longrightarrow>
        (\<exists>t. parse_duration (Str (''PT'' @ n @ ''M'')) = Inr t)) \<and>
     (\<forall>N. 60 * quantity (Some n) * 1000000 = of_int N \<and> N \<le> 2 ^ 48 \<longrightarrow>
        parse_duration (Str (''PT'' @ n @ ''M'')) =
          Inr \<lparr>days = N div 86400000000, seconds = N div 1000000 mod 86400,
               microseconds = N mod 1000000\<rparr>) \<and>
     (all_digits n \<and> 60 * nat_of_digits n div 86400 \<le> 999999999 \<longrightarrow>
        parse_duration (Str (''PT'' @ n @ ''M'')) =
          Inr \<lparr>days = int (60 * nat_of_digits n div 86400),
               seconds = int (60 * nat_of_digits n mod 86400), microseconds = 0\<rparr>)"
proof -
  from groups_months_decimal[OF assms] obtain m where
    m: "re_match RE_ISO_8601_DURATION (''P'' @ n @ ''M'') = Some m"
    and g: "dgroups m = [None, None, Some n, None, None, None, None]"
    by blast
  from groups_minutes_decimal[OF assms] obtain m' where
    m': "re_match RE_ISO_8601_DURATION (''PT'' @ n @ ''M'') = Some m'"
    and g': "dgroups m' = [None, None, None, None, None, Some n, None]"
    by blast
  have sg: "m g_sign \<noteq> Some ''-''" using g by (simp add: dgroups_eq)
  have sg': "m' g_sign \<noteq> Some ''-''" using g' by (simp add: dgroups_eq)
  note X = policy_us_months[OF g]
  note X' = policy_us_minutes[OF g']
  have 1: "map_option dgroups (re_match RE_ISO_8601_DURATION (''P'' @ n @ ''M'')) =
       Some [None, None, Some n, None, None, None, None]"
    using m g by simp
  have 2: "map_option dgroups (re_match RE_ISO_8601_DURATION (''PT'' @ n @ ''M'')) =
       Some [None, None, None, None, None, Some n, None]"
    using m' g' by simp
  have 3: "\<forall>t. parse_duration (Str (''P'' @ n @ ''M'')) = Inr t \<longrightarrow>
        \<bar>of_int (td_to_us t) - 30 * quantity (Some n) * 86400000000\<bar>
          \<le> 1 / 2 + 1 / 2 ^ 15 + 30 * quantity (Some n) * 86400000000 / 2 ^ 50"
    using parse_duration_bound[OF m] unfolding X by blast
  have 4: "30 * quantity (Some n) * 86400000000 \<le> 86399999999000000000 \<longrightarrow>
        (\<exists>t. parse_duration (Str (''P'' @ n @ ''M'')) = Inr t)"
    using parse_duration_exists[OF m sg] unfolding X by blast
  have 5: "\<forall>N. 30 * quantity (Some n) * 86400000000 = of_int N \<and> N \<le> 2 ^ 48 \<longrightarrow>
        parse_duration (Str (''P'' @ n @ ''M'')) =
          Inr \<lparr>days = N div 86400000000, seconds = N div 1000000 mod 86400,
               microseconds = N mod 1000000\<rparr>"
    using parse_duration_exact[OF m sg] unfolding X by blast
  have 6: "all_digits n \<and> 30 * nat_of_digits n \<le> 999999999 \<longrightarrow>
        parse_duration (Str (''P'' @ n @ ''M'')) =
          Inr \<lparr>days = int (30 * nat_of_digits n), seconds = 0, microseconds = 0\<rparr>"
    using parse_months[of n] by blast
  have 7: "\<forall>t. parse_duration (Str (''PT'' @ n @ ''M'')) = Inr t \<longrightarrow>
        \<bar>of_int (td_to_us t) - 60 * quantity (Some n) * 1000000\<bar>
          \<le> 1 / 2 + 1 / 2 ^ 15 + 60 * quantity (Some n) * 1000000 / 2 ^ 50"
    using parse_duration_bound[OF m'] unfolding X' by blast
  have 8: "60 * quantity (Some n) * 1000000 \<le> 86399999999000000000 \<longrightarrow>
        (\<exists>t. parse_duration (Str (''PT'' @ n @ ''M'')) = Inr t)"
    using parse_duration_exists[OF m' sg'] unfolding X' by blast
  have 9: "\<forall>N. 60 * quantity (Some n) * 1000000 = of_int N \<and> N \<le> 2 ^ 48 \<longrightarrow>
        parse_duration (Str (''PT'' @ n @ ''M'')) =
          Inr \<lparr>days = N div 86400000000, seconds = N div 1000000 mod 86400,
               microseconds = N mod 1000000\<rparr>"
    using parse_duration_exact[OF m' sg'] unfolding X' by blast
  have 10: "all_digits n \<and> 60 * nat_of_digits n div 86400 \<le> 999999999 \<longrightarrow>
        parse_duration (Str (''PT'' @ n @ ''M'')) =
          Inr \<lparr>days = int (60 * nat_of_digits n div 86400),
               seconds = int (60 * nat_of_digits n mod 86400), microseconds = 0\<rparr>"
    using parse_minutes[of n] by blast
  show ?thesis by (intro conjI) (fact 1 2 3 4 5 6 7 8 9 10)+
qed

theorem parse_duration_M_witness:
  "decimal ''1'' \<and> decimal ''1.5'' \<and>
   parse_duration (Str ''P1M'') = Inr \<lparr>days = 30, seconds = 0, microseconds = 0\<rparr> \<and>
   parse_duration (Str ''PT1M'') = Inr \<lparr>days = 0, seconds = 60, microseconds = 0\<rparr> \<and>
   parse_duration (Str ''P1.5M'') = Inr \<lparr>days = 45, seconds = 0, microseconds = 0\<rparr> \<and>
   parse_duration (Str ''PT1.5M'') = Inr \<lparr>days = 0, seconds = 90, microseconds = 0\<rparr>"
proof -
  have a: "all_digits ''1''" by (simp add: all_digits_def digits_def)
  have d1: "decimal ''1''" by (simp add: decimal_def all_digits_def digits_def)
  have d2: "decimal ''1.5''" by (simp add: decimal_def all_digits_def digits_def)
  have n: "nat_of_digits ''1'' = 1" by (simp add: nat_of_digits_def digit_val_def)
  have w: "parse_duration (Str ''P1M'') = Inr \<lparr>days = 30, seconds = 0, microseconds = 0\<rparr>"
    "parse_duration (Str ''PT1M'') = Inr \<lparr>days = 0, seconds = 60, microseconds = 0\<rparr>"
    using parse_duration_M[OF d1] a by (simp_all add: n)
  have q: "30 * quantity (Some ''1.5'') * 86400000000 = of_int 3888000000000"
    "60 * quantity (Some ''1.5'') * 1000000 = of_int 90000000"
    by (simp_all add: quantity_examples)
  have f: "parse_duration (Str ''P1.5M'') = Inr \<lparr>days = 45, seconds = 0, microseconds = 0\<rparr>"
    "parse_duration (Str ''PT1.5M'') = Inr \<lparr>days = 0, seconds = 90, microseconds = 0\<rparr>"
    using parse_duration_M[OF d2] q by simp_all
  from d1 d2 w f show ?thesis by simp
qed

end
